theory Spec2Isabelle
  imports Complex_Main
begin

section \<open>A BiLSTM-CRF tagger: the CRF layer and the training driver of \<open>bilstm_ner.py\<close>\<close>

text \<open>
  The development embeds the linear-chain CRF of \<open>src/bilstm_ner.py\<close> (class
  \<open>BiLSTM_CRF\<close>) and the corpus partition and model loading of \<open>main\<close>.

  Conventions of the embedding.
  \<^item> A tensor of shape \<open>1 \<times> T\<close> or \<open>T\<close> is a \<open>real list\<close>, a matrix is a list of rows.
    Tensor entries are modelled as real numbers: every statement below is a statement
    about the exact arithmetic of the algorithms, not about 32-bit rounding.
  \<^item> An exception of the source is a value \<open>Inl e\<close> of a sum type, a normal result
    is \<open>Inr x\<close>.
  \<^item> The emission model (embedding, LSTM, linear layer) is a black box; its output
    \<open>feats\<close>, one row of \<open>tagset_size\<close> scores per position, is a parameter.
  \<^item> Tag indices are natural numbers. The tensors of the source have their shapes by
    construction (the transition matrix is created square, the linear layer maps to
    \<open>tagset_size\<close> scores), so the properties are stated for tensors of these shapes
    (\<open>wf_model\<close>, \<open>wf_feats\<close>), where every index that the loops of the CRF layer read
    is in range.
\<close>

subsection \<open>Errors\<close>

datatype error =
  KeyError | IndexError | AssertionError | ZeroDivisionError
  | FileNotFoundError | UnpicklingError | RuntimeError

subsection \<open>Tensor helpers\<close>

text \<open>Elementwise sum of two tensors of the same shape.\<close>

definition vadd :: "real list \<Rightarrow> real list \<Rightarrow> real list" where
  "vadd xs ys = map2 (+) xs ys"

text \<open>
  The index that \<^verbatim>\<open>torch.max(vec, 1)\<close> returns for a \<open>1 \<times> T\<close> tensor: the index of the
  first maximal entry.
\<close>

fun first_max :: "real list \<Rightarrow> nat" where
  "first_max [] = 0"
| "first_max [x] = 0"
| "first_max (x # y # ys) =
     (let j = first_max (y # ys) in if (y # ys) ! j \<le> x then 0 else Suc j)"

text \<open>\<^verbatim>\<open>argmax(vec)\<close>, lines 23 to 26; the reduction over an empty dimension raises.\<close>

definition argmax :: "real list \<Rightarrow> error + nat" where
  "argmax vec = (if vec = [] then Inl IndexError else Inr (first_max vec))"

text \<open>\<^verbatim>\<open>log_sum_exp(vec)\<close>, lines 35 to 39.\<close>

definition log_sum_exp :: "real list \<Rightarrow> error + real" where
  "log_sum_exp vec =
     (case argmax vec of
        Inl e \<Rightarrow> Inl e
      | Inr i \<Rightarrow>
          let max_score = vec ! i;
              max_score_broadcast = replicate (length vec) max_score
          in Inr (max_score + ln (sum_list (map exp (map2 (-) vec max_score_broadcast)))))"

subsection \<open>The model\<close>

text \<open>
  The fields of \<open>BiLSTM_CRF\<close> that the CRF layer reads: the tag count, the indices
  \<^verbatim>\<open>tag_to_ix[START_TAG]\<close> and \<^verbatim>\<open>tag_to_ix[STOP_TAG]\<close>, and the transition matrix, whose
  entry \<open>transitions ! i ! j\<close> is the score of moving to tag \<open>i\<close> from tag \<open>j\<close>. The
  dictionary is not changed after the constructor has looked both keys up, so the
  methods read the two indices from the record.
\<close>

record BiLSTM_CRF =
  tagset_size :: nat
  start_ix :: nat
  stop_ix :: nat
  transitions :: "real list list"

definition START_TAG :: string where
  "START_TAG = ''<START>''"

definition STOP_TAG :: string where
  "STOP_TAG = ''<STOP>''"

text \<open>
  \<^verbatim>\<open>__init__\<close>, lines 43 to 72. The dictionary \<open>tag_to_ix\<close> is an association list, and
  the sample drawn by \<^verbatim>\<open>torch.randn(tagset_size, tagset_size)\<close> is the parameter \<open>randn\<close>.
  A missing key raises \<open>KeyError\<close>, an index outside the matrix raises \<open>IndexError\<close>.
\<close>

definition init :: "(string \<times> nat) list \<Rightarrow> real list list \<Rightarrow> error + BiLSTM_CRF" where
  "init tag_to_ix randn =
     (let T = length tag_to_ix in
      case map_of tag_to_ix START_TAG of
        None \<Rightarrow> Inl KeyError
      | Some s \<Rightarrow>
          if \<not> s < T then Inl IndexError
          else
            let transitions1 = randn[s := replicate T (- 10000)] in
            (case map_of tag_to_ix STOP_TAG of
               None \<Rightarrow> Inl KeyError
             | Some e \<Rightarrow>
                 if \<not> e < T then Inl IndexError
                 else
                   Inr \<lparr>tagset_size = T, start_ix = s, stop_ix = e,
                        transitions = map (\<lambda>row. row[e := - 10000]) transitions1\<rparr>))"

text \<open>
  The shape invariant of a constructed model and of the emission matrix that
  \<^verbatim>\<open>_get_lstm_features\<close> returns for it (one row of \<open>tagset_size\<close> scores per position).
\<close>

definition wf_model :: "BiLSTM_CRF \<Rightarrow> bool" where
  "wf_model m \<longleftrightarrow>
     start_ix m < tagset_size m \<and> stop_ix m < tagset_size m
     \<and> length (transitions m) = tagset_size m
     \<and> list_all (\<lambda>row. length row = tagset_size m) (transitions m)"

definition wf_feats :: "BiLSTM_CRF \<Rightarrow> real list list \<Rightarrow> bool" where
  "wf_feats m feats \<longleftrightarrow> list_all (\<lambda>feat. length feat = tagset_size m) feats"

definition wf_tags :: "BiLSTM_CRF \<Rightarrow> real list list \<Rightarrow> nat list \<Rightarrow> bool" where
  "wf_tags m feats tags \<longleftrightarrow>
     length tags = length feats \<and> list_all (\<lambda>t. t < tagset_size m) tags"

text \<open>The sentinel row and column that \<^verbatim>\<open>__init__\<close> writes.\<close>

definition sentinel :: "BiLSTM_CRF \<Rightarrow> bool" where
  "sentinel m \<longleftrightarrow>
     list_all (\<lambda>j. transitions m ! start_ix m ! j = - 10000) [0..<tagset_size m]
     \<and> list_all (\<lambda>i. transitions m ! i ! stop_ix m = - 10000) [0..<tagset_size m]"

subsection \<open>The forward algorithm\<close>

text \<open>The inner loop of \<^verbatim>\<open>_forward_alg\<close> over \<open>next_tag\<close>, lines 92 to 105.\<close>

fun alphas_t_loop :: "BiLSTM_CRF \<Rightarrow> real list \<Rightarrow> real list \<Rightarrow> nat list \<Rightarrow> error + real list" where
  "alphas_t_loop m forward_var feat [] = Inr []"
| "alphas_t_loop m forward_var feat (next_tag # rest) =
     (let emit_score = replicate (tagset_size m) (feat ! next_tag);
          trans_score = transitions m ! next_tag;
          next_tag_var = vadd (vadd forward_var trans_score) emit_score
      in case log_sum_exp next_tag_var of
           Inl e \<Rightarrow> Inl e
         | Inr a \<Rightarrow>
             (case alphas_t_loop m forward_var feat rest of
                Inl e \<Rightarrow> Inl e
              | Inr alphas_t \<Rightarrow> Inr (a # alphas_t)))"

text \<open>The outer loop over the positions, lines 90 to 106.\<close>

fun forward_loop :: "BiLSTM_CRF \<Rightarrow> real list \<Rightarrow> real list list \<Rightarrow> error + real list" where
  "forward_loop m forward_var [] = Inr forward_var"
| "forward_loop m forward_var (feat # feats) =
     (case alphas_t_loop m forward_var feat [0..<tagset_size m] of
        Inl e \<Rightarrow> Inl e
      | Inr alphas_t \<Rightarrow> forward_loop m alphas_t feats)"

text \<open>\<^verbatim>\<open>_forward_alg\<close>, lines 80 to 109.\<close>

definition init_alphas :: "BiLSTM_CRF \<Rightarrow> real list" where
  "init_alphas m = (replicate (tagset_size m) (- 10000))[start_ix m := 0]"

definition forward_alg :: "BiLSTM_CRF \<Rightarrow> real list list \<Rightarrow> error + real" where
  "forward_alg m feats =
     (case forward_loop m (init_alphas m) feats of
        Inl e \<Rightarrow> Inl e
      | Inr forward_var \<Rightarrow>
          let terminal_var = vadd forward_var (transitions m ! stop_ix m)
          in log_sum_exp terminal_var)"

subsection \<open>The score of a given tag sequence\<close>

text \<open>
  The loop of \<^verbatim>\<open>_score_sentence\<close>, lines 123 to 125; \<open>tags\<close> is the sequence with the
  start index in front. Reading \<open>tags\<close> past its end, or the matrix at a tag that is
  not an index of it, raises.
\<close>

fun score_loop :: "BiLSTM_CRF \<Rightarrow> nat list \<Rightarrow> nat \<Rightarrow> real list list \<Rightarrow> real \<Rightarrow> error + real" where
  "score_loop m tags i [] score = Inr score"
| "score_loop m tags i (feat # feats) score =
     (if Suc i < length tags \<and> tags ! Suc i < tagset_size m \<and> tags ! i < tagset_size m
      then score_loop m tags (Suc i) feats
             (score + transitions m ! (tags ! Suc i) ! (tags ! i) + feat ! (tags ! Suc i))
      else Inl IndexError)"

text \<open>\<^verbatim>\<open>_score_sentence\<close>, lines 119 to 127.\<close>

definition score_sentence :: "BiLSTM_CRF \<Rightarrow> real list list \<Rightarrow> nat list \<Rightarrow> error + real" where
  "score_sentence m feats tags0 =
     (let tags = start_ix m # tags0 in
      case score_loop m tags 0 feats 0 of
        Inl e \<Rightarrow> Inl e
      | Inr score \<Rightarrow>
          if last tags < tagset_size m
          then Inr (score + transitions m ! stop_ix m ! last tags)
          else Inl IndexError)"

subsection \<open>Viterbi decoding\<close>

text \<open>The inner loop of \<^verbatim>\<open>_viterbi_decode\<close> over \<open>next_tag\<close>, lines 142 to 151.\<close>

fun viterbi_step_loop ::
  "BiLSTM_CRF \<Rightarrow> real list \<Rightarrow> nat list \<Rightarrow> error + (nat list \<times> real list)" where
  "viterbi_step_loop m forward_var [] = Inr ([], [])"
| "viterbi_step_loop m forward_var (next_tag # rest) =
     (let next_tag_var = vadd forward_var (transitions m ! next_tag) in
      case argmax next_tag_var of
        Inl e \<Rightarrow> Inl e
      | Inr best_tag_id \<Rightarrow>
          (case viterbi_step_loop m forward_var rest of
             Inl e \<Rightarrow> Inl e
           | Inr (bptrs_t, viterbivars_t) \<Rightarrow>
               Inr (best_tag_id # bptrs_t, next_tag_var ! best_tag_id # viterbivars_t)))"

text \<open>The outer loop over the positions, lines 138 to 155.\<close>

fun viterbi_loop ::
  "BiLSTM_CRF \<Rightarrow> real list \<Rightarrow> nat list list \<Rightarrow> real list list
     \<Rightarrow> error + (real list \<times> nat list list)" where
  "viterbi_loop m forward_var backpointers [] = Inr (forward_var, backpointers)"
| "viterbi_loop m forward_var backpointers (feat # feats) =
     (case viterbi_step_loop m forward_var [0..<tagset_size m] of
        Inl e \<Rightarrow> Inl e
      | Inr (bptrs_t, viterbivars_t) \<Rightarrow>
          viterbi_loop m (vadd viterbivars_t feat) (backpointers @ [bptrs_t]) feats)"

text \<open>The loop that follows the back pointers, lines 164 to 166.\<close>

fun trace_back :: "nat \<Rightarrow> nat list \<Rightarrow> nat list list \<Rightarrow> nat list" where
  "trace_back best_tag_id best_path [] = best_path"
| "trace_back best_tag_id best_path (bptrs_t # rest) =
     (let best_tag_id' = bptrs_t ! best_tag_id
      in trace_back best_tag_id' (best_path @ [best_tag_id']) rest)"

text \<open>
  \<^verbatim>\<open>_viterbi_decode\<close> up to line 166: the score of the best path and the path as it is
  reconstructed, last tag first, with the tag before the first position at its end.
\<close>

definition viterbi_trace :: "BiLSTM_CRF \<Rightarrow> real list list \<Rightarrow> error + (real \<times> nat list)" where
  "viterbi_trace m feats =
     (case viterbi_loop m (init_alphas m) [] feats of
        Inl e \<Rightarrow> Inl e
      | Inr (forward_var, backpointers) \<Rightarrow>
          let terminal_var = vadd forward_var (transitions m ! stop_ix m) in
          (case argmax terminal_var of
             Inl e \<Rightarrow> Inl e
           | Inr best_tag_id \<Rightarrow>
               Inr (terminal_var ! best_tag_id,
                    trace_back best_tag_id [best_tag_id] (rev backpointers))))"

text \<open>\<^verbatim>\<open>_viterbi_decode\<close>, lines 129 to 171: pop the start tag, check it, reverse.\<close>

definition viterbi_decode :: "BiLSTM_CRF \<Rightarrow> real list list \<Rightarrow> error + (real \<times> nat list)" where
  "viterbi_decode m feats =
     (case viterbi_trace m feats of
        Inl e \<Rightarrow> Inl e
      | Inr (path_score, best_path) \<Rightarrow>
          let start = last best_path;
              best_path' = butlast best_path
          in if start = start_ix m then Inr (path_score, rev best_path')
             else Inl AssertionError)"

subsection \<open>The loss\<close>

text \<open>\<^verbatim>\<open>neg_log_likelihood\<close>, lines 173 to 177, on the emissions of the sentence.\<close>

definition neg_log_likelihood :: "BiLSTM_CRF \<Rightarrow> real list list \<Rightarrow> nat list \<Rightarrow> error + real" where
  "neg_log_likelihood m feats tags =
     (case forward_alg m feats of
        Inl e \<Rightarrow> Inl e
      | Inr forward_score \<Rightarrow>
          (case score_sentence m feats tags of
             Inl e \<Rightarrow> Inl e
           | Inr gold_score \<Rightarrow> Inr (forward_score - gold_score)))"

subsection \<open>Reference definitions\<close>

text \<open>The log-sum-exp of a vector as it is defined mathematically, with no shift.\<close>

definition naive_log_sum_exp :: "real list \<Rightarrow> real" where
  "naive_log_sum_exp vec = ln (sum_list (map exp vec))"

text \<open>
  The score of a path: \<open>tags0\<close> with the tag \<open>s\<close> in front, the transition into and the
  emission of every position, and the transition from the last tag to the stop tag.
\<close>

definition path_score_from :: "BiLSTM_CRF \<Rightarrow> nat \<Rightarrow> real list list \<Rightarrow> nat list \<Rightarrow> real" where
  "path_score_from m s feats tags0 =
     (let tags = s # tags0 in
      (\<Sum>i<length feats. transitions m ! (tags ! Suc i) ! (tags ! i) + feats ! i ! (tags ! Suc i))
      + transitions m ! stop_ix m ! last tags)"

definition path_score :: "BiLSTM_CRF \<Rightarrow> real list list \<Rightarrow> nat list \<Rightarrow> real" where
  "path_score m feats tags0 = path_score_from m (start_ix m) feats tags0"

text \<open>All tag sequences of length \<open>n\<close> over the tag indices of the model.\<close>

definition tag_seqs :: "BiLSTM_CRF \<Rightarrow> nat \<Rightarrow> nat list list" where
  "tag_seqs m n = List.n_lists n [0..<tagset_size m]"

text \<open>
  The log partition function: the logarithm of the sum, over all tag sequences of the
  length of the sentence, of the exponential of the path score.
\<close>

definition log_partition :: "BiLSTM_CRF \<Rightarrow> real list list \<Rightarrow> real" where
  "log_partition m feats =
     ln (\<Sum>tags\<leftarrow>tag_seqs m (length feats). exp (path_score m feats tags))"

text \<open>
  The same sum when the tag before the first position is free and tag \<open>s\<close> there is
  charged \<open>init_alphas m ! s\<close>, which is 0 for the start tag and -10000 for any other.
\<close>

definition log_partition_init :: "BiLSTM_CRF \<Rightarrow> real list list \<Rightarrow> real" where
  "log_partition_init m feats =
     ln (\<Sum>s\<leftarrow>[0..<tagset_size m]. \<Sum>tags\<leftarrow>tag_seqs m (length feats).
           exp (init_alphas m ! s + path_score_from m s feats tags))"

text \<open>
  The forward recurrence in the words of the specification: the start vector, the
  update of entry \<open>k\<close> at a position with emissions \<open>e\<close>, and the final log-sum-exp over
  the entries with the transitions to the stop tag added.
\<close>

definition spec_start_vector :: "BiLSTM_CRF \<Rightarrow> real list" where
  "spec_start_vector m = map (\<lambda>j. if j = start_ix m then 0 else - 10000) [0..<tagset_size m]"

definition spec_forward_step :: "BiLSTM_CRF \<Rightarrow> real list \<Rightarrow> real list \<Rightarrow> real list" where
  "spec_forward_step m prev e =
     map (\<lambda>k. naive_log_sum_exp (map (\<lambda>j. prev ! j + transitions m ! k ! j) [0..<tagset_size m])
               + e ! k)
         [0..<tagset_size m]"

definition spec_forward :: "BiLSTM_CRF \<Rightarrow> real list list \<Rightarrow> real" where
  "spec_forward m feats =
     (let final = foldl (spec_forward_step m) (spec_start_vector m) feats
      in naive_log_sum_exp
           (map (\<lambda>j. final ! j + transitions m ! stop_ix m ! j) [0..<tagset_size m]))"

subsection \<open>The corpus partition of \<open>main\<close>\<close>

text \<open>Python's slice \<open>xs[a:b]\<close> for non-negative bounds.\<close>

definition slice :: "'a list \<Rightarrow> nat \<Rightarrow> nat \<Rightarrow> 'a list" where
  "slice xs a b = take (b - a) (drop a xs)"

text \<open>
  Lines 280 to 283 of \<open>main\<close>:
  \<^verbatim>\<open>k, m = divmod(len(training_data), num_processes)\<close> and
  \<^verbatim>\<open>list(training_data[i*k+min(i, m):(i+1)*k+min(i+1, m)] for i in range(num_processes))\<close>.
  \<open>main\<close> fixes \<open>num_processes = 4\<close>; the worker count is a parameter here, and
  \<open>divmod\<close> by zero raises.
\<close>

definition fragment :: "nat \<Rightarrow> 'a list \<Rightarrow> error + 'a list list" where
  "fragment num_processes training_data =
     (if num_processes = 0 then Inl ZeroDivisionError
      else
        let k = length training_data div num_processes;
            m = length training_data mod num_processes
        in Inr (map (\<lambda>i. slice training_data (i * k + min i m) ((i + 1) * k + min (i + 1) m))
                  [0..<num_processes]))"

definition num_processes :: nat where
  "num_processes = 4"

definition fragmented_training_data :: "'a list \<Rightarrow> error + 'a list list" where
  "fragmented_training_data training_data = fragment num_processes training_data"

text \<open>The first index of shard \<open>i\<close>.\<close>

definition shard_start :: "nat \<Rightarrow> nat \<Rightarrow> nat \<Rightarrow> nat" where
  "shard_start n p i = i * (n div p) + min i (n mod p)"

subsection \<open>The model phase of \<open>main\<close>\<close>










subsection \<open>Example models\<close>

text \<open>
  A model with one real tag at index 0, the start tag at index 1 and the stop tag at
  index 2, as \<open>init\<close> builds it from the sample \<open>toy_randn\<close>, and the emissions of a
  sentence of two positions.
\<close>

definition toy_tag_to_ix :: "(string \<times> nat) list" where
  "toy_tag_to_ix = [(''O'', 0), (START_TAG, 1), (STOP_TAG, 2)]"

definition toy_randn :: "real list list" where
  "toy_randn = [[1, 2, 0], [0, 0, 0], [3, 4, 0]]"

definition toy_model :: BiLSTM_CRF where
  "toy_model = \<lparr>tagset_size = 3, start_ix = 1, stop_ix = 2,
                transitions = [[1, 2, - 10000], [- 10000, - 10000, - 10000], [3, 4, - 10000]]\<rparr>"

definition toy_feats :: "real list list" where
  "toy_feats = [[5, 6, 7], [8, 9, 10]]"

text \<open>
  The same tag set with the sentinel row and column in place and a transition score of
  \<open>20000\<close> from the real tag to itself, as \<open>init\<close> builds it from the sample
  \<open>large_randn\<close>, and the emissions of a sentence of one position.
\<close>

definition large_randn :: "real list list" where
  "large_randn = [[20000, 0, 0], [0, 0, 0], [0, 0, 0]]"

definition large_model :: BiLSTM_CRF where
  "large_model = \<lparr>tagset_size = 3, start_ix = 1, stop_ix = 2,
                  transitions = [[20000, 0, - 10000], [- 10000, - 10000, - 10000], [0, 0, - 10000]]\<rparr>"

definition large_feats :: "real list list" where
  "large_feats = [[0, 0, 0]]"





subsection \<open>Auxiliary definitions\<close>

text \<open>The forward vector after one more position, entry by entry.\<close>

definition fstep :: "BiLSTM_CRF \<Rightarrow> real list \<Rightarrow> real list \<Rightarrow> real list" where
  "fstep m fv feat =
     map (\<lambda>k. ln (\<Sum>j<tagset_size m. exp (fv ! j + transitions m ! k ! j + feat ! k)))
       [0..<tagset_size m]"

text \<open>
  The sum of the exponentiated scores of all continuations of a path that stands at
  tag \<open>s\<close> before the positions \<open>feats\<close>.
\<close>

fun bw :: "BiLSTM_CRF \<Rightarrow> real list list \<Rightarrow> nat \<Rightarrow> real" where
  "bw m [] s = exp (transitions m ! stop_ix m ! s)"
| "bw m (feat # feats) s =
     (\<Sum>k<tagset_size m. exp (transitions m ! k ! s + feat ! k) * bw m feats k)"

text \<open>
  One position of the Viterbi loop as a function of the state (the viterbi variables
  and the back pointers so far), the state after all positions, the terminal vector,
  the best last tag, and the path that the back pointers give from a tag, in the order
  of the sentence, with the tag before the first position in front.
\<close>

definition best_prev :: "BiLSTM_CRF \<Rightarrow> real list \<Rightarrow> nat \<Rightarrow> nat" where
  "best_prev m fv k = first_max (vadd fv (transitions m ! k))"

definition vstep ::
  "BiLSTM_CRF \<Rightarrow> real list \<times> nat list list \<Rightarrow> real list \<Rightarrow> real list \<times> nat list list" where
  "vstep m st feat =
     (vadd (map (\<lambda>k. vadd (fst st) (transitions m ! k) ! best_prev m (fst st) k)
              [0..<tagset_size m]) feat,
      snd st @ [map (best_prev m (fst st)) [0..<tagset_size m]])"

definition vstate :: "BiLSTM_CRF \<Rightarrow> real list list \<Rightarrow> real list \<times> nat list list" where
  "vstate m feats = foldl (vstep m) (init_alphas m, []) feats"

fun follow :: "nat \<Rightarrow> nat list list \<Rightarrow> nat list" where
  "follow b [] = [b]"
| "follow b (bptrs_t # rest) = b # follow (bptrs_t ! b) rest"

definition pth :: "nat list list \<Rightarrow> nat \<Rightarrow> nat list" where
  "pth bps k = rev (follow k (rev bps))"

definition vterminal :: "BiLSTM_CRF \<Rightarrow> real list list \<Rightarrow> real list" where
  "vterminal m feats = vadd (fst (vstate m feats)) (transitions m ! stop_ix m)"

definition vbest :: "BiLSTM_CRF \<Rightarrow> real list list \<Rightarrow> nat" where
  "vbest m feats = first_max (vterminal m feats)"

definition vpath :: "BiLSTM_CRF \<Rightarrow> real list list \<Rightarrow> nat list" where
  "vpath m feats = pth (snd (vstate m feats)) (vbest m feats)"

definition prefix_score :: "BiLSTM_CRF \<Rightarrow> nat list \<Rightarrow> real list list \<Rightarrow> real" where
  "prefix_score m tags feats =
     (\<Sum>i<length feats. transitions m ! (tags ! Suc i) ! (tags ! i) + feats ! i ! (tags ! Suc i))"

text \<open>
  The start tag wins the first maximisation of the Viterbi loop for every next tag; and
  a bound on the entries of the transition matrix outside the sentinel row and column
  under which it does.
\<close>

definition start_dominates :: "BiLSTM_CRF \<Rightarrow> bool" where
  "start_dominates m \<longleftrightarrow>
     list_all (\<lambda>k. list_all (\<lambda>j. j = start_ix m
                   \<or> transitions m ! k ! j - 10000 < transitions m ! k ! start_ix m)
                 [0..<tagset_size m])
       [0..<tagset_size m]"

definition small_transitions :: "BiLSTM_CRF \<Rightarrow> bool" where
  "small_transitions m \<longleftrightarrow>
     list_all (\<lambda>i. list_all (\<lambda>j. i = start_ix m \<or> j = stop_ix m
                   \<or> \<bar>transitions m ! i ! j\<bar> < 5000)
                 [0..<tagset_size m])
       [0..<tagset_size m]"


text \<open>
  Bounds on the scores: \<open>Bm\<close> on the absolute value of the transition scores outside
  the sentinel row and column, \<open>Be\<close> on that of the emissions.
\<close>

definition small_scores :: "BiLSTM_CRF \<Rightarrow> real list list \<Rightarrow> real \<Rightarrow> real \<Rightarrow> bool" where
  "small_scores m feats Bm Be \<longleftrightarrow>
     list_all (\<lambda>i. list_all (\<lambda>j. i = start_ix m \<or> j = stop_ix m
                   \<or> \<bar>transitions m ! i ! j\<bar> \<le> Bm)
                 [0..<tagset_size m])
       [0..<tagset_size m]
     \<and> list_all (\<lambda>feat. list_all (\<lambda>k. \<bar>feat ! k\<bar> \<le> Be) [0..<tagset_size m]) feats"

text \<open>
  A tag sequence between the start and the stop tag, the transition score at a step
  of it, and the transition and emission parts of the score of the path.
\<close>

definition ext_tags :: "BiLSTM_CRF \<Rightarrow> nat list \<Rightarrow> nat list" where
  "ext_tags m tags = (start_ix m # tags) @ [stop_ix m]"

definition trans_at :: "BiLSTM_CRF \<Rightarrow> nat list \<Rightarrow> nat \<Rightarrow> real" where
  "trans_at m tags i = transitions m ! (ext_tags m tags ! Suc i) ! (ext_tags m tags ! i)"

definition trans_sum :: "BiLSTM_CRF \<Rightarrow> nat list \<Rightarrow> real" where
  "trans_sum m tags = (\<Sum>i<Suc (length tags). trans_at m tags i)"

definition emit_sum :: "real list list \<Rightarrow> nat list \<Rightarrow> real" where
  "emit_sum feats tags = (\<Sum>i<length feats. feats ! i ! (tags ! i))"

section \<open>Properties\<close>

subsection \<open>The log-sum-exp\<close>

lemma map2_minus_replicate:
  "map2 (-) vec (replicate (length vec) c) = map (\<lambda>x. x - c) (vec::real list)"
  by (induction vec) auto

lemma first_max_lt: "xs \<noteq> [] \<Longrightarrow> first_max xs < length xs"
  by (induction xs rule: first_max.induct) (auto simp: Let_def)

lemma first_max_ge: "z \<in> set xs \<Longrightarrow> z \<le> xs ! first_max xs"
proof (induction xs arbitrary: z rule: first_max.induct)
  case 1
  then show ?case by simp
next
  case (2 x)
  then show ?case by simp
next
  case (3 x y ys)
  let ?j = "first_max (y # ys)"
  have ih: "w \<le> (y # ys) ! ?j" if "w \<in> set (y # ys)" for w
    using that "3.IH" by blast
  show ?case
  proof (cases "(y # ys) ! ?j \<le> x")
    case True
    then have fm: "first_max (x # y # ys) = 0" by simp
    show ?thesis
    proof (cases "z = x")
      case True
      then show ?thesis using fm by simp
    next
      case False
      then have "z \<in> set (y # ys)" using "3.prems" by simp
      then have "z \<le> (y # ys) ! ?j" by (rule ih)
      then show ?thesis using True fm by simp
    qed
  next
    case False
    then have fm: "first_max (x # y # ys) = Suc ?j" by simp
    show ?thesis
    proof (cases "z = x")
      case True
      then show ?thesis using False fm by simp
    next
      case False
      then have "z \<in> set (y # ys)" using "3.prems" by simp
      then have "z \<le> (y # ys) ! ?j" by (rule ih)
      then show ?thesis using fm by simp
    qed
  qed
qed

lemma first_max_Max: "xs \<noteq> [] \<Longrightarrow> xs ! first_max xs = Max (set xs)"
proof -
  assume ne: "xs \<noteq> []"
  have mem: "xs ! first_max xs \<in> set xs" using first_max_lt [OF ne] by simp
  have ub: "\<And>x. x \<in> set xs \<Longrightarrow> x \<le> xs ! first_max xs" using first_max_ge by blast
  show ?thesis
    by (rule sym, rule Max_eqI) (use mem ub in auto)
qed

lemma sum_exp_nonneg: "0 \<le> sum_list (map exp (xs::real list))"
  by (induction xs) auto

lemma sum_exp_pos: "xs \<noteq> [] \<Longrightarrow> 0 < sum_list (map exp (xs::real list))"
proof (cases xs)
  case Nil
  assume "xs \<noteq> []"
  with Nil show ?thesis by simp
next
  case (Cons a ys)
  have "0 < exp a" by simp
  then have "0 < exp a + sum_list (map exp ys)"
    using sum_exp_nonneg [of ys] by linarith
  then show ?thesis using Cons by simp
qed

lemma sum_exp_shift:
  "sum_list (map exp (map (\<lambda>x. x - c) (xs::real list))) = exp (- c) * sum_list (map exp xs)"
  by (induction xs) (auto simp: exp_diff exp_minus field_simps)

lemma log_sum_exp_stable:
  assumes "vec \<noteq> []"
  shows "log_sum_exp vec
         = Inr (Max (set vec) + ln (sum_list (map (\<lambda>x. exp (x - Max (set vec))) vec)))"
proof -
  have a: "argmax vec = Inr (first_max vec)"
    using assms by (simp add: argmax_def)
  have b: "map exp (map2 (-) vec (replicate (length vec) c)) = map (\<lambda>x. exp (x - c)) vec" for c
    by (simp only: map2_minus_replicate) simp
  show ?thesis
    by (simp only: log_sum_exp_def a Let_def sum.case b first_max_Max [OF assms])
qed

lemma log_sum_exp_naive:
  assumes "vec \<noteq> []"
  shows "log_sum_exp vec = Inr (ln (sum_list (map exp vec)))"
proof -
  let ?c = "Max (set vec)"
  have "sum_list (map (\<lambda>x. exp (x - ?c)) vec) = exp (- ?c) * sum_list (map exp vec)"
    using sum_exp_shift [of ?c vec] by (simp add: comp_def)
  then have "ln (sum_list (map (\<lambda>x. exp (x - ?c)) vec)) = - ?c + ln (sum_list (map exp vec))"
    using sum_exp_pos [OF assms] by (simp add: ln_mult)
  then show ?thesis using log_sum_exp_stable [OF assms] by simp
qed

text \<open>
  C10. For every non-empty vector, \<open>log_sum_exp\<close> returns the maximum of the vector plus
  the logarithm of the sum of the exponentials of the entries shifted by the maximum,
  and that value is the logarithm of the sum of the exponentials of the entries: the
  shift does not change the value.
\<close>

theorem log_sum_exp_refines_naive:
  assumes "vec \<noteq> []"
  shows "log_sum_exp vec
           = Inr (Max (set vec) + ln (sum_list (map (\<lambda>x. exp (x - Max (set vec))) vec)))
         \<and> log_sum_exp vec = Inr (naive_log_sum_exp vec)
         \<and> naive_log_sum_exp vec = ln (sum_list (map exp vec))"
  using log_sum_exp_stable [OF assms] log_sum_exp_naive [OF assms]
  by (simp add: naive_log_sum_exp_def)

theorem log_sum_exp_refines_naive_witness:
  "[0, 1 :: real] \<noteq> []
   \<and> log_sum_exp [0, 1] = Inr (naive_log_sum_exp [0, 1])
   \<and> naive_log_sum_exp [0, 1] = ln (1 + exp 1)"
proof -
  have ne: "[0, 1 :: real] \<noteq> []" by simp
  have a: "log_sum_exp [0, 1] = Inr (naive_log_sum_exp [0, 1])"
    using log_sum_exp_refines_naive [OF ne] by blast
  have b: "naive_log_sum_exp [0, 1] = ln (1 + exp 1)"
    by (simp add: naive_log_sum_exp_def)
  show ?thesis using ne a b by blast
qed

subsection \<open>The forward algorithm as a sum over paths\<close>

lemma vadd_nth:
  "length xs = n \<Longrightarrow> length ys = n \<Longrightarrow> vadd xs ys = map (\<lambda>j. xs ! j + ys ! j) [0..<n]"
  by (rule nth_equalityI) (auto simp: vadd_def)

lemma length_vadd: "length (vadd xs ys) = min (length xs) (length ys)"
  by (simp add: vadd_def)

lemma sum_list_upt: "sum_list (map f [0..<n]) = (\<Sum>j<n. f j)"
  by (simp add: interv_sum_list_conv_sum_set_nat atLeast0LessThan)

lemma wf_model_row: "wf_model m \<Longrightarrow> k < tagset_size m \<Longrightarrow> length (transitions m ! k) = tagset_size m"
  by (simp add: wf_model_def list_all_length)

lemma wf_model_pos: "wf_model m \<Longrightarrow> 0 < tagset_size m"
  by (simp add: wf_model_def)

lemma next_tag_var_eq:
  assumes "wf_model m" "length fv = tagset_size m" "k < tagset_size m"
  shows "vadd (vadd fv (transitions m ! k)) (replicate (tagset_size m) c)
         = map (\<lambda>j. fv ! j + transitions m ! k ! j + c) [0..<tagset_size m]"
  using assms wf_model_row [OF assms(1) assms(3)]
  by (intro nth_equalityI) (auto simp: vadd_def)

lemma alphas_t_loop_eq:
  assumes "wf_model m" "length fv = tagset_size m" "\<forall>k\<in>set ks. k < tagset_size m"
  shows "alphas_t_loop m fv feat ks
         = Inr (map (\<lambda>k. ln (\<Sum>j<tagset_size m. exp (fv ! j + transitions m ! k ! j + feat ! k))) ks)"
  using assms(3)
proof (induction ks)
  case Nil
  show ?case by simp
next
  case (Cons k ks)
  let ?v = "map (\<lambda>j. fv ! j + transitions m ! k ! j + feat ! k) [0..<tagset_size m]"
  have k: "k < tagset_size m" using Cons.prems by simp
  have ne: "?v \<noteq> []" using wf_model_pos [OF assms(1)] by simp
  have "log_sum_exp ?v = Inr (ln (sum_list (map exp ?v)))"
    using ne by (rule log_sum_exp_naive)
  also have "sum_list (map exp ?v) = (\<Sum>j<tagset_size m. exp (fv ! j + transitions m ! k ! j + feat ! k))"
    by (simp add: comp_def sum_list_upt)
  finally have l: "log_sum_exp ?v
     = Inr (ln (\<Sum>j<tagset_size m. exp (fv ! j + transitions m ! k ! j + feat ! k)))" .
  have ih: "alphas_t_loop m fv feat ks
         = Inr (map (\<lambda>k. ln (\<Sum>j<tagset_size m. exp (fv ! j + transitions m ! k ! j + feat ! k))) ks)"
    using Cons by simp
  show ?case
    by (simp only: alphas_t_loop.simps Let_def next_tag_var_eq [OF assms(1) assms(2) k] l ih
          sum.case list.map)
qed

lemma forward_loop_eq:
  assumes "wf_model m"
  shows "length fv = tagset_size m \<Longrightarrow>
         forward_loop m fv feats = Inr (foldl (fstep m) fv feats)"
proof (induction feats arbitrary: fv)
  case Nil
  show ?case by simp
next
  case (Cons feat feats)
  have a: "alphas_t_loop m fv feat [0..<tagset_size m] = Inr (fstep m fv feat)"
    using alphas_t_loop_eq [OF assms Cons.prems, of "[0..<tagset_size m]" feat]
    by (simp add: fstep_def)
  have "length (fstep m fv feat) = tagset_size m" by (simp add: fstep_def)
  then show ?case using Cons.IH a by simp
qed

lemma length_foldl_fstep:
  "length fv = tagset_size m \<Longrightarrow> length (foldl (fstep m) fv feats) = tagset_size m"
  by (induction feats arbitrary: fv) (auto simp: fstep_def)

lemma exp_fstep:
  assumes "0 < tagset_size m" "k < tagset_size m"
  shows "exp (fstep m fv feat ! k)
         = (\<Sum>j<tagset_size m. exp (fv ! j + transitions m ! k ! j + feat ! k))"
proof -
  have "0 < (\<Sum>j<tagset_size m. exp (fv ! j + transitions m ! k ! j + feat ! k))"
    using assms(1) by (intro sum_pos) auto
  then show ?thesis using assms(2) by (simp add: fstep_def)
qed

lemma terminal_sum:
  assumes "0 < tagset_size m"
  shows "(\<Sum>j<tagset_size m. exp (foldl (fstep m) fv feats ! j + transitions m ! stop_ix m ! j))
         = (\<Sum>j<tagset_size m. exp (fv ! j) * bw m feats j)"
proof (induction feats arbitrary: fv)
  case Nil
  show ?case by (simp add: exp_add)
next
  case (Cons feat feats)
  let ?T = "tagset_size m"
  have "(\<Sum>j<?T. exp (foldl (fstep m) fv (feat # feats) ! j + transitions m ! stop_ix m ! j))
        = (\<Sum>k<?T. exp (fstep m fv feat ! k) * bw m feats k)"
    using Cons.IH [of "fstep m fv feat"] by simp
  also have "\<dots> = (\<Sum>k<?T. (\<Sum>j<?T. exp (fv ! j + transitions m ! k ! j + feat ! k)) * bw m feats k)"
    by (intro sum.cong refl) (simp add: exp_fstep [OF assms])
  also have "\<dots> = (\<Sum>k<?T. \<Sum>j<?T. exp (fv ! j) * (exp (transitions m ! k ! j + feat ! k) * bw m feats k))"
    unfolding sum_distrib_right
    by (intro sum.cong refl) (simp add: exp_add algebra_simps)
  also have "\<dots> = (\<Sum>j<?T. \<Sum>k<?T. exp (fv ! j) * (exp (transitions m ! k ! j + feat ! k) * bw m feats k))"
    by (rule sum.swap)
  also have "\<dots> = (\<Sum>j<?T. exp (fv ! j) * bw m (feat # feats) j)"
    by (simp add: sum_distrib_left)
  finally show ?case .
qed

lemma forward_alg_bw:
  assumes "wf_model m"
  shows "forward_alg m feats
         = Inr (ln (\<Sum>j<tagset_size m. exp (init_alphas m ! j) * bw m feats j))"
proof -
  let ?T = "tagset_size m"
  let ?final = "foldl (fstep m) (init_alphas m) feats"
  let ?v = "map (\<lambda>j. ?final ! j + transitions m ! stop_ix m ! j) [0..<?T]"
  have pos: "0 < ?T" using assms by (rule wf_model_pos)
  have li: "length (init_alphas m) = ?T" by (simp add: init_alphas_def)
  have loop: "forward_loop m (init_alphas m) feats = Inr ?final"
    using forward_loop_eq [OF assms li] .
  have lf: "length ?final = ?T" using li by (rule length_foldl_fstep)
  have ls: "length (transitions m ! stop_ix m) = ?T"
    using assms by (simp add: wf_model_def list_all_length)
  have tv: "vadd ?final (transitions m ! stop_ix m) = ?v"
    using lf ls by (rule vadd_nth)
  have ne: "?v \<noteq> []" using pos by simp
  have "log_sum_exp ?v = Inr (ln (sum_list (map exp ?v)))"
    using ne by (rule log_sum_exp_naive)
  also have "sum_list (map exp ?v)
             = (\<Sum>j<?T. exp (?final ! j + transitions m ! stop_ix m ! j))"
    by (simp add: comp_def sum_list_upt)
  also have "\<dots> = (\<Sum>j<?T. exp (init_alphas m ! j) * bw m feats j)"
    using pos by (rule terminal_sum)
  finally have "log_sum_exp ?v = Inr (ln (\<Sum>j<?T. exp (init_alphas m ! j) * bw m feats j))" .
  then show ?thesis
    by (simp only: forward_alg_def loop sum.case Let_def tv)
qed

lemma path_score_from_Nil: "path_score_from m s [] [] = transitions m ! stop_ix m ! s"
  by (simp add: path_score_from_def)

lemma path_score_from_Cons:
  "path_score_from m s (feat # feats) (y # ys)
   = transitions m ! y ! s + feat ! y + path_score_from m y feats ys"
  by (simp add: path_score_from_def Let_def sum.lessThan_Suc_shift del: sum.lessThan_Suc)

lemma sum_list_swap:
  "(\<Sum>x\<leftarrow>xs. \<Sum>y\<leftarrow>ys. (f x y :: real)) = (\<Sum>y\<leftarrow>ys. \<Sum>x\<leftarrow>xs. f x y)"
  by (induction xs) (auto simp: sum_list_addf)

lemma sum_list_concat_real: "sum_list (concat xss) = (\<Sum>xs\<leftarrow>xss. sum_list (xs :: real list))"
  by (induction xss) auto

lemma sum_list_n_lists_Suc:
  "(\<Sum>zs\<leftarrow>List.n_lists (Suc n) xs. (g zs :: real))
   = (\<Sum>y\<leftarrow>xs. \<Sum>ys\<leftarrow>List.n_lists n xs. g (y # ys))"
proof -
  have "(\<Sum>zs\<leftarrow>List.n_lists (Suc n) xs. g zs)
        = (\<Sum>ys\<leftarrow>List.n_lists n xs. \<Sum>y\<leftarrow>xs. g (y # ys))"
    by (simp add: sum_list_concat_real comp_def map_concat)
  also have "\<dots> = (\<Sum>y\<leftarrow>xs. \<Sum>ys\<leftarrow>List.n_lists n xs. g (y # ys))"
    by (rule sum_list_swap)
  finally show ?thesis .
qed

lemma bw_paths:
  "bw m feats s = (\<Sum>tags\<leftarrow>tag_seqs m (length feats). exp (path_score_from m s feats tags))"
proof (induction feats arbitrary: s)
  case Nil
  show ?case by (simp add: tag_seqs_def path_score_from_Nil)
next
  case (Cons feat feats)
  let ?T = "tagset_size m"
  have "(\<Sum>tags\<leftarrow>tag_seqs m (length (feat # feats)). exp (path_score_from m s (feat # feats) tags))
        = (\<Sum>y\<leftarrow>[0..<?T]. \<Sum>ys\<leftarrow>tag_seqs m (length feats).
             exp (path_score_from m s (feat # feats) (y # ys)))"
    unfolding tag_seqs_def length_Cons by (rule sum_list_n_lists_Suc)
  also have "\<dots> = (\<Sum>y\<leftarrow>[0..<?T]. exp (transitions m ! y ! s + feat ! y) *
                      (\<Sum>ys\<leftarrow>tag_seqs m (length feats). exp (path_score_from m y feats ys)))"
    by (simp add: path_score_from_Cons exp_add sum_list_const_mult)
  also have "\<dots> = (\<Sum>y\<leftarrow>[0..<?T]. exp (transitions m ! y ! s + feat ! y) * bw m feats y)"
    using Cons.IH by simp
  also have "\<dots> = bw m (feat # feats) s"
    by (simp add: sum_list_upt)
  finally show ?case by simp
qed

lemma bw_pos: "0 < tagset_size m \<Longrightarrow> 0 < bw m feats s"
proof (induction feats arbitrary: s)
  case Nil
  show ?case by simp
next
  case (Cons feat feats)
  have "0 < (\<Sum>k<tagset_size m. exp (transitions m ! k ! s + feat ! k) * bw m feats k)"
    using Cons by (intro sum_pos) auto
  then show ?case by simp
qed

lemma init_sum_paths:
  "(\<Sum>j<tagset_size m. exp (init_alphas m ! j) * bw m feats j)
   = (\<Sum>s\<leftarrow>[0..<tagset_size m]. \<Sum>tags\<leftarrow>tag_seqs m (length feats).
        exp (init_alphas m ! s + path_score_from m s feats tags))"
proof -
  have "exp (init_alphas m ! s) * bw m feats s
        = (\<Sum>tags\<leftarrow>tag_seqs m (length feats).
             exp (init_alphas m ! s + path_score_from m s feats tags))" for s
    by (simp add: bw_paths exp_add sum_list_const_mult)
  then show ?thesis by (simp add: sum_list_upt)
qed

lemma forward_alg_partition_init:
  "wf_model m \<Longrightarrow> forward_alg m feats = Inr (log_partition_init m feats)"
  by (simp add: forward_alg_bw init_sum_paths log_partition_init_def)

lemma init_alphas_start: "wf_model m \<Longrightarrow> init_alphas m ! start_ix m = 0"
  by (simp add: init_alphas_def wf_model_def)

lemma init_alphas_other:
  "j < tagset_size m \<Longrightarrow> j \<noteq> start_ix m \<Longrightarrow> init_alphas m ! j = - 10000"
  by (simp add: init_alphas_def)

lemma spec_start_vector_eq: "wf_model m \<Longrightarrow> spec_start_vector m = init_alphas m"
  by (intro nth_equalityI) (auto simp: spec_start_vector_def init_alphas_def wf_model_def)

lemma log_partition_bw:
  "log_partition m feats = ln (bw m feats (start_ix m))"
  by (simp add: log_partition_def path_score_def bw_paths)

lemma init_sum_split:
  assumes "wf_model m"
  shows "(\<Sum>j<tagset_size m. exp (init_alphas m ! j) * bw m feats j)
         = bw m feats (start_ix m)
           + (\<Sum>j\<in>{..<tagset_size m} - {start_ix m}. exp (- 10000) * bw m feats j)"
proof -
  let ?T = "tagset_size m"
  have mem: "start_ix m \<in> {..<?T}" using assms by (simp add: wf_model_def)
  have "(\<Sum>j<?T. exp (init_alphas m ! j) * bw m feats j)
        = exp (init_alphas m ! start_ix m) * bw m feats (start_ix m)
          + (\<Sum>j\<in>{..<?T} - {start_ix m}. exp (init_alphas m ! j) * bw m feats j)"
    using mem by (simp add: sum.remove)
  also have "(\<Sum>j\<in>{..<?T} - {start_ix m}. exp (init_alphas m ! j) * bw m feats j)
             = (\<Sum>j\<in>{..<?T} - {start_ix m}. exp (- 10000) * bw m feats j)"
    by (intro sum.cong refl) (simp add: init_alphas_other)
  finally show ?thesis using init_alphas_start [OF assms] by simp
qed

lemma log_partition_le_init:
  assumes "wf_model m"
  shows "log_partition m feats \<le> log_partition_init m feats"
proof -
  let ?T = "tagset_size m"
  have pos: "0 < ?T" using assms by (rule wf_model_pos)
  have "0 \<le> (\<Sum>j\<in>{..<?T} - {start_ix m}. exp (- 10000) * bw m feats j)"
    using bw_pos [OF pos] by (intro sum_nonneg) (simp add: less_imp_le)
  then have "bw m feats (start_ix m) \<le> (\<Sum>j<?T. exp (init_alphas m ! j) * bw m feats j)"
    using init_sum_split [OF assms] by simp
  then have "ln (bw m feats (start_ix m)) \<le> ln (\<Sum>j<?T. exp (init_alphas m ! j) * bw m feats j)"
    using bw_pos [OF pos, of feats "start_ix m"] by simp
  then show ?thesis
    by (simp add: log_partition_bw log_partition_init_def init_sum_paths)
qed

lemma log_partition_less_init:
  assumes "wf_model m" "2 \<le> tagset_size m"
  shows "log_partition m feats < log_partition_init m feats"
proof -
  let ?T = "tagset_size m"
  let ?S = "{..<?T} - {start_ix m}"
  have pos: "0 < ?T" using assms(1) by (rule wf_model_pos)
  have c: "card ?S = ?T - 1" using assms(1) by (simp add: wf_model_def)
  have ne: "?S \<noteq> {}"
  proof
    assume e: "?S = {}"
    have "card ?S = 0" unfolding e by simp
    with c assms(2) show False by simp
  qed
  have "0 < (\<Sum>j\<in>?S. exp (- 10000) * bw m feats j)"
    using bw_pos [OF pos] ne by (intro sum_pos) auto
  then have "bw m feats (start_ix m) < (\<Sum>j<?T. exp (init_alphas m ! j) * bw m feats j)"
    using init_sum_split [OF assms(1)] by simp
  then have "ln (bw m feats (start_ix m)) < ln (\<Sum>j<?T. exp (init_alphas m ! j) * bw m feats j)"
    using bw_pos [OF pos, of feats "start_ix m"] by simp
  then show ?thesis
    by (simp add: log_partition_bw log_partition_init_def init_sum_paths)
qed

lemma member_le_sum_list_real:
  "(\<And>x. x \<in> set xs \<Longrightarrow> 0 \<le> f x) \<Longrightarrow> y \<in> set xs \<Longrightarrow> (f y :: real) \<le> sum_list (map f xs)"
proof (induction xs)
  case Nil
  then show ?case by simp
next
  case (Cons a xs)
  have nn: "0 \<le> sum_list (map f xs)"
    using Cons.prems(1) by (intro sum_list_nonneg) auto
  show ?case
  proof (cases "y = a")
    case True
    then show ?thesis using nn by simp
  next
    case False
    then have "f y \<le> sum_list (map f xs)" using Cons by simp
    moreover have "0 \<le> f a" using Cons.prems(1) by simp
    ultimately show ?thesis by simp
  qed
qed

lemma wf_tags_mem:
  "wf_tags m feats tags \<Longrightarrow> tags \<in> set (tag_seqs m (length feats))"
  by (auto simp: wf_tags_def tag_seqs_def set_n_lists list_all_iff)

lemma path_score_le_log_partition:
  assumes "wf_tags m feats tags"
  shows "path_score m feats tags \<le> log_partition m feats"
proof -
  let ?f = "\<lambda>tags. exp (path_score m feats tags)"
  have "?f tags \<le> sum_list (map ?f (tag_seqs m (length feats)))"
    using wf_tags_mem [OF assms] by (intro member_le_sum_list_real) auto
  then have "ln (?f tags) \<le> ln (sum_list (map ?f (tag_seqs m (length feats))))"
    by (subst ln_le_cancel_iff) (auto intro: less_le_trans [of 0 "?f tags"])
  then show ?thesis by (simp add: log_partition_def)
qed

lemma ln_sum_exp_shift:
  assumes "0 < (n::nat)"
  shows "ln (\<Sum>j<n. exp (a j)) + c = ln (\<Sum>j<n. exp (a j + c :: real))"
proof -
  have pos: "0 < (\<Sum>j<n. exp (a j))"
    using assms by (intro sum_pos) auto
  have "(\<Sum>j<n. exp (a j + c)) = (\<Sum>j<n. exp (a j)) * exp c"
    by (simp add: exp_add sum_distrib_right)
  then show ?thesis using pos by (simp add: ln_mult)
qed

lemma spec_forward_step_eq:
  assumes "0 < tagset_size m"
  shows "spec_forward_step m prev e = fstep m prev e"
proof -
  have "naive_log_sum_exp (map (\<lambda>j. prev ! j + transitions m ! k ! j) [0..<tagset_size m]) + e ! k
        = ln (\<Sum>j<tagset_size m. exp (prev ! j + transitions m ! k ! j + e ! k))" for k
    using ln_sum_exp_shift [OF assms, of "\<lambda>j. prev ! j + transitions m ! k ! j" "e ! k"]
    by (simp add: naive_log_sum_exp_def comp_def sum_list_upt)
  then show ?thesis by (simp add: spec_forward_step_def fstep_def)
qed

lemma foldl_spec_forward_step:
  assumes "0 < tagset_size m"
  shows "foldl (spec_forward_step m) v feats = foldl (fstep m) v feats"
  by (induction feats arbitrary: v) (simp_all add: spec_forward_step_eq [OF assms])

lemma forward_alg_spec_forward:
  assumes "wf_model m"
  shows "forward_alg m feats = Inr (spec_forward m feats)"
proof -
  let ?T = "tagset_size m"
  have pos: "0 < ?T" using assms by (rule wf_model_pos)
  have "spec_forward m feats
        = ln (\<Sum>j<?T. exp (foldl (fstep m) (init_alphas m) feats ! j
                             + transitions m ! stop_ix m ! j))"
    by (simp add: spec_forward_def Let_def naive_log_sum_exp_def comp_def sum_list_upt
          spec_start_vector_eq [OF assms] foldl_spec_forward_step [OF pos])
  also have "\<dots> = ln (\<Sum>j<?T. exp (init_alphas m ! j) * bw m feats j)"
    by (simp only: terminal_sum [OF pos])
  finally show ?thesis by (simp add: forward_alg_bw [OF assms])
qed

lemma score_loop_eq:
  assumes "list_all (\<lambda>t. t < tagset_size m) tags"
  shows "i + length feats < length tags \<Longrightarrow>
         score_loop m tags i feats score
         = Inr (score + (\<Sum>j<length feats.
                  transitions m ! (tags ! Suc (i + j)) ! (tags ! (i + j))
                  + feats ! j ! (tags ! Suc (i + j))))"
proof (induction feats arbitrary: i score)
  case Nil
  show ?case by simp
next
  case (Cons feat feats)
  have b: "tags ! k < tagset_size m" if "k < length tags" for k
    using assms that by (simp add: list_all_length)
  have c: "Suc i < length tags \<and> tags ! Suc i < tagset_size m \<and> tags ! i < tagset_size m"
    using Cons.prems b by simp
  have ih: "score_loop m tags (Suc i) feats s'
        = Inr (s' + (\<Sum>j<length feats.
                  transitions m ! (tags ! Suc (Suc i + j)) ! (tags ! (Suc i + j))
                  + feats ! j ! (tags ! Suc (Suc i + j))))" for s'
    using Cons.prems by (intro Cons.IH) simp
  show ?case
    using c by (simp add: ih sum.lessThan_Suc_shift del: sum.lessThan_Suc)
qed

lemma score_sentence_eq:
  assumes "wf_model m" "wf_tags m feats tags0"
  shows "score_sentence m feats tags0 = Inr (path_score m feats tags0)"
proof -
  let ?tags = "start_ix m # tags0"
  have all: "list_all (\<lambda>t. t < tagset_size m) ?tags"
    using assms by (simp add: wf_model_def wf_tags_def)
  have len: "0 + length feats < length ?tags"
    using assms(2) by (simp add: wf_tags_def)
  have "last ?tags \<in> set ?tags" by (rule last_in_set) simp
  then have l: "last ?tags < tagset_size m"
    using all by (simp only: list_all_iff)
  show ?thesis
    using l score_loop_eq [OF all len, of 0]
    by (simp add: score_sentence_def path_score_def path_score_from_def Let_def)
qed

lemma last_tags:
  "length tags0 = n \<Longrightarrow> 0 < n \<Longrightarrow> last (s # tags0) = tags0 ! (n - 1)"
  by (cases tags0) (auto simp: last_conv_nth)

subsection \<open>The example models\<close>

lemma lt3: "{..<3::nat} = {0, 1, 2}" by auto

lemma large_bw_start: "bw large_model large_feats 1 = 1 + 2 * exp (- 10000)"
  by (simp add: large_model_def large_feats_def lt3)

lemma large_bw_0: "bw large_model large_feats 0 = exp 20000 + 2 * exp (- 10000)"
  by (simp add: large_model_def large_feats_def lt3)

lemma exp_small: "exp (- 10000 :: real) < 1 / 2"
proof -
  have "(2::real) \<le> exp 1" using exp_ge_add_one_self [of "1::real"] by simp
  then have "exp (- 1 :: real) \<le> 1 / 2"
    by (simp add: exp_minus field_simps)
  moreover have "exp (- 10000 :: real) < exp (- 1)" by simp
  ultimately show ?thesis by linarith
qed

lemma wf_toy: "wf_model toy_model" "wf_feats toy_model toy_feats"
  by (simp_all add: wf_model_def wf_feats_def toy_model_def toy_feats_def)

lemma wf_toy_tags: "wf_tags toy_model toy_feats [0, 0]"
  by (simp add: wf_tags_def toy_model_def toy_feats_def)

lemma wf_large: "wf_model large_model" "wf_feats large_model large_feats"
  by (simp_all add: wf_model_def wf_feats_def large_model_def large_feats_def)

lemma toy_decode: "viterbi_decode toy_model toy_feats = Inr (19, [0, 0])"
  by code_simp

lemma toy_trace: "viterbi_trace toy_model toy_feats = Inr (19, [0, 0, 1])"
  by code_simp

lemma large_trace: "viterbi_trace large_model large_feats = Inr (10000, [0, 0])"
  by code_simp

lemma large_decode: "viterbi_decode large_model large_feats = Inl AssertionError"
  by code_simp

lemma toy_init: "init toy_tag_to_ix toy_randn = Inr toy_model"
  by code_simp

lemma large_init: "init toy_tag_to_ix large_randn = Inr large_model"
  by code_simp

lemma toy_sentinel: "sentinel toy_model"
  by code_simp

lemma large_sentinel: "sentinel large_model"
  by code_simp

lemma toy_small: "small_transitions toy_model" "start_ix toy_model \<noteq> stop_ix toy_model"
  by code_simp+

lemma toy_score: "score_sentence toy_model toy_feats [0, 0] = Inr 19"
  by (simp add: score_sentence_def toy_model_def toy_feats_def)

lemma log_partition_init_bw:
  "log_partition_init m feats
   = ln (\<Sum>j<tagset_size m. exp (init_alphas m ! j) * bw m feats j)"
  by (simp only: log_partition_init_def init_sum_paths)

lemma large_init_ge: "10000 \<le> log_partition_init large_model large_feats"
proof -
  let ?g = "\<lambda>j. exp (init_alphas large_model ! j) * bw large_model large_feats j"
  have T: "tagset_size large_model = 3" by (simp add: large_model_def)
  have pos: "0 < tagset_size large_model" by (simp add: T)
  have i0: "init_alphas large_model ! 0 = - 10000"
    by (simp add: init_alphas_def large_model_def)
  have "?g 0 \<le> (\<Sum>j<3. ?g j)"
    using bw_pos [OF pos] by (intro member_le_sum) (auto simp: less_imp_le)
  moreover have "exp (- 10000) * exp 20000 \<le> ?g 0"
    by (simp add: i0 large_bw_0)
  moreover have "exp (- 10000) * exp 20000 = exp (10000 :: real)"
    by (simp add: exp_add [symmetric])
  ultimately have "exp 10000 \<le> (\<Sum>j<3. ?g j)" by linarith
  then have "ln (exp 10000) \<le> ln (\<Sum>j<3. ?g j)"
    by (subst ln_le_cancel_iff) (auto intro: less_le_trans [of 0 "exp 10000"])
  moreover have "log_partition_init large_model large_feats = ln (\<Sum>j<3. ?g j)"
    using log_partition_init_bw [of large_model large_feats] by (simp only: T)
  ultimately show ?thesis by simp
qed

lemma large_partition_lt: "log_partition large_model large_feats < 1"
proof -
  have s: "start_ix large_model = 1" by (simp add: large_model_def)
  have "1 + 2 * exp (- 10000 :: real) < 2" using exp_small by simp
  also have "(2::real) \<le> exp 1" using exp_ge_add_one_self [of "1::real"] by simp
  finally have "ln (1 + 2 * exp (- 10000 :: real)) < ln (exp 1)"
    by (subst ln_less_cancel_iff) (auto intro: add_pos_pos)
  moreover have "log_partition large_model large_feats = ln (1 + 2 * exp (- 10000))"
    by (simp only: log_partition_bw s large_bw_start)
  ultimately show ?thesis by simp
qed

subsection \<open>The forward algorithm, the score of a path and the loss\<close>

text \<open>
  C1. For a model and an emission matrix of the shapes the program builds,
  \<open>forward_alg\<close> returns the value of the recurrence of the specification (start
  vector 0 at the start index and -10000 elsewhere, entry \<open>k\<close> replaced by the
  log-sum-exp over \<open>j\<close> of \<open>prev[j] + M[k][j]\<close> plus the emission, stop transitions and
  a final log-sum-exp). That value is the logarithm of the sum of the exponentiated
  path scores over all tag sequences and all tags before the first position, a tag
  other than the start tag being charged -10000 there; it is at least the log partition
  function over the paths that begin at the start tag, and greater when the model has
  two tags or more.
\<close>

theorem forward_alg_log_sum:
  assumes "wf_model m" "wf_feats m feats"
  shows "forward_alg m feats = Inr (spec_forward m feats)
         \<and> forward_alg m feats = Inr (log_partition_init m feats)
         \<and> log_partition m feats \<le> log_partition_init m feats
         \<and> (2 \<le> tagset_size m \<longrightarrow> log_partition m feats < log_partition_init m feats)"
  using forward_alg_spec_forward [OF assms(1)] forward_alg_partition_init [OF assms(1)]
        log_partition_le_init [OF assms(1)] log_partition_less_init [OF assms(1)]
  by simp

theorem forward_alg_log_sum_witness:
  "wf_model toy_model \<and> wf_feats toy_model toy_feats
   \<and> forward_alg toy_model toy_feats = Inr (spec_forward toy_model toy_feats)
   \<and> forward_alg toy_model toy_feats = Inr (log_partition_init toy_model toy_feats)"
  using forward_alg_log_sum [OF wf_toy] wf_toy by blast

text \<open>
  The claim as it is stated fails: with the sentinel row and column in place and a
  transition score of 20000 from the real tag to itself, the forward algorithm returns
  at least 10000 on a sentence of one position with all emissions 0, and the log
  partition function over the paths from the start tag is below 1.
\<close>

theorem forward_alg_not_log_partition:
  "init toy_tag_to_ix large_randn = Inr large_model
   \<and> wf_model large_model \<and> wf_feats large_model large_feats \<and> sentinel large_model
   \<and> forward_alg large_model large_feats = Inr (log_partition_init large_model large_feats)
   \<and> 10000 \<le> log_partition_init large_model large_feats
   \<and> log_partition large_model large_feats < 1
   \<and> forward_alg large_model large_feats \<noteq> Inr (log_partition large_model large_feats)"
proof -
  have a: "forward_alg large_model large_feats
           = Inr (log_partition_init large_model large_feats)"
    using wf_large(1) by (rule forward_alg_partition_init)
  have "log_partition large_model large_feats \<noteq> log_partition_init large_model large_feats"
    using large_init_ge large_partition_lt by linarith
  then show ?thesis
    using a large_init_ge large_partition_lt large_init wf_large large_sentinel by simp
qed

text \<open>
  C2. For tags that are indices of the model, one per position, \<open>score_sentence\<close>
  returns the sum over the positions \<open>i\<close> of the transition score
  \<open>M[tags[i+1]][tags[i]]\<close> and the emission \<open>E[i][tags[i+1]]\<close>, where \<open>tags\<close> is the
  sequence with the start index in front, plus the transition to the stop tag from the
  last tag, which is \<open>tags0[L-1]\<close> when the sentence is not empty.
\<close>

theorem score_sentence_sum:
  assumes "wf_model m" "wf_feats m feats" "wf_tags m feats tags0"
  shows "score_sentence m feats tags0
         = Inr ((\<Sum>i<length feats.
                   transitions m ! ((start_ix m # tags0) ! Suc i) ! ((start_ix m # tags0) ! i)
                   + feats ! i ! ((start_ix m # tags0) ! Suc i))
                + transitions m ! stop_ix m ! last (start_ix m # tags0))
         \<and> (0 < length feats \<longrightarrow> last (start_ix m # tags0) = tags0 ! (length feats - 1))"
proof -
  have "length tags0 = length feats" using assms(3) by (simp add: wf_tags_def)
  then have "0 < length feats \<longrightarrow> last (start_ix m # tags0) = tags0 ! (length feats - 1)"
    using last_tags [of tags0 "length feats" "start_ix m"] by blast
  then show ?thesis
    using score_sentence_eq [OF assms(1) assms(3)]
    by (simp add: path_score_def path_score_from_def Let_def)
qed

theorem score_sentence_sum_witness:
  "wf_model toy_model \<and> wf_feats toy_model toy_feats \<and> wf_tags toy_model toy_feats [0, 0]
   \<and> score_sentence toy_model toy_feats [0, 0] = Inr 19
   \<and> score_sentence toy_model toy_feats [0, 0] = Inr (((2 + 5) + (1 + 8)) + 3)"
proof -
  have "score_sentence toy_model toy_feats [0, 0] = Inr (((2 + 5) + (1 + 8)) + 3)"
    using score_sentence_sum [OF wf_toy wf_toy_tags]
    by (simp add: toy_model_def toy_feats_def lessThan_Suc numeral_2_eq_2)
  then show ?thesis using wf_toy wf_toy_tags by simp
qed

text \<open>
  C3. For tags that are indices of the model, one per position, the forward score is at
  least the score of the tag sequence, so the negative log-likelihood, their
  difference, is not negative.
\<close>

theorem forward_ge_gold:
  assumes "wf_model m" "wf_feats m feats" "wf_tags m feats tags"
  shows "\<exists>forward_score gold_score.
           forward_alg m feats = Inr forward_score
           \<and> score_sentence m feats tags = Inr gold_score
           \<and> gold_score \<le> forward_score
           \<and> neg_log_likelihood m feats tags = Inr (forward_score - gold_score)
           \<and> 0 \<le> forward_score - gold_score"
proof -
  have f: "forward_alg m feats = Inr (log_partition_init m feats)"
    using assms(1) by (rule forward_alg_partition_init)
  have g: "score_sentence m feats tags = Inr (path_score m feats tags)"
    using assms(1) assms(3) by (rule score_sentence_eq)
  have le: "path_score m feats tags \<le> log_partition_init m feats"
    using path_score_le_log_partition [OF assms(3)] log_partition_le_init [OF assms(1)]
    by (rule order_trans)
  have n: "neg_log_likelihood m feats tags
           = Inr (log_partition_init m feats - path_score m feats tags)"
    by (simp add: neg_log_likelihood_def f g)
  show ?thesis using f g le n by simp
qed

theorem forward_ge_gold_witness:
  "wf_model toy_model \<and> wf_feats toy_model toy_feats \<and> wf_tags toy_model toy_feats [0, 0]
   \<and> score_sentence toy_model toy_feats [0, 0] = Inr 19
   \<and> forward_alg toy_model toy_feats = Inr (log_partition_init toy_model toy_feats)
   \<and> 19 \<le> log_partition_init toy_model toy_feats"
proof -
  obtain fs gs where
    "forward_alg toy_model toy_feats = Inr fs"
    "score_sentence toy_model toy_feats [0, 0] = Inr gs" "gs \<le> fs"
    using forward_ge_gold [OF wf_toy wf_toy_tags] by blast
  then have "19 \<le> log_partition_init toy_model toy_feats"
    using toy_score forward_alg_partition_init [OF wf_toy(1), of toy_feats] by simp
  then show ?thesis
    using wf_toy wf_toy_tags toy_score forward_alg_partition_init [OF wf_toy(1), of toy_feats]
    by simp
qed

subsection \<open>Viterbi decoding: the loop, the path and its score\<close>

lemma viterbi_step_loop_eq:
  assumes "wf_model m" "length fv = tagset_size m" "\<forall>k\<in>set ks. k < tagset_size m"
  shows "viterbi_step_loop m fv ks
         = Inr (map (best_prev m fv) ks,
                map (\<lambda>k. vadd fv (transitions m ! k) ! best_prev m fv k) ks)"
  using assms(3)
proof (induction ks)
  case Nil
  show ?case by simp
next
  case (Cons k ks)
  have k: "k < tagset_size m" using Cons.prems by simp
  have "length (vadd fv (transitions m ! k)) = tagset_size m"
    using assms(2) wf_model_row [OF assms(1) k] by (simp add: length_vadd)
  then have ne: "vadd fv (transitions m ! k) \<noteq> []"
    using wf_model_pos [OF assms(1)] by auto
  have a: "argmax (vadd fv (transitions m ! k)) = Inr (best_prev m fv k)"
    using ne by (simp add: argmax_def best_prev_def)
  have ih: "viterbi_step_loop m fv ks
         = Inr (map (best_prev m fv) ks,
                map (\<lambda>k. vadd fv (transitions m ! k) ! best_prev m fv k) ks)"
    using Cons by simp
  show ?case
    by (simp add: Let_def a ih)
qed

lemma length_vstep:
  "length feat = tagset_size m \<Longrightarrow> length (fst (vstep m st feat)) = tagset_size m"
  by (simp add: vstep_def length_vadd)

lemma viterbi_loop_eq:
  assumes "wf_model m"
  shows "wf_feats m feats \<Longrightarrow> length fv = tagset_size m \<Longrightarrow>
         viterbi_loop m fv bps feats = Inr (foldl (vstep m) (fv, bps) feats)"
proof (induction feats arbitrary: fv bps)
  case Nil
  show ?case by simp
next
  case (Cons feat feats)
  have lf: "length feat = tagset_size m" and wf: "wf_feats m feats"
    using Cons.prems(1) by (simp_all add: wf_feats_def)
  have s: "viterbi_step_loop m fv [0..<tagset_size m]
           = Inr (map (best_prev m fv) [0..<tagset_size m],
                  map (\<lambda>k. vadd fv (transitions m ! k) ! best_prev m fv k) [0..<tagset_size m])"
    using assms Cons.prems(2) by (intro viterbi_step_loop_eq) auto
  let ?fv = "vadd (map (\<lambda>k. vadd fv (transitions m ! k) ! best_prev m fv k)
                     [0..<tagset_size m]) feat"
  let ?bps = "bps @ [map (best_prev m fv) [0..<tagset_size m]]"
  have v: "vstep m (fv, bps) feat = (?fv, ?bps)" by (simp add: vstep_def)
  have l: "length ?fv = tagset_size m"
    using lf by (simp add: length_vadd)
  have ih: "viterbi_loop m ?fv ?bps feats = Inr (foldl (vstep m) (?fv, ?bps) feats)"
    using wf l by (rule Cons.IH)
  show ?case
    by (simp only: viterbi_loop.simps s sum.case prod.case ih foldl_Cons v)
qed

lemma follow_hd: "hd (follow b rest) = b"
  by (cases rest) simp_all

lemma follow_ne: "follow b rest \<noteq> []"
  by (cases rest) simp_all

lemma length_follow: "length (follow b rest) = Suc (length rest)"
  by (induction rest arbitrary: b) simp_all

lemma follow_unfold: "follow b rest = b # tl (follow b rest)"
  by (cases rest) simp_all

lemma trace_back_follow: "trace_back b acc rest = acc @ tl (follow b rest)"
proof (induction rest arbitrary: b acc)
  case Nil
  show ?case by simp
next
  case (Cons bptrs_t rest)
  have "trace_back b acc (bptrs_t # rest)
        = (acc @ [bptrs_t ! b]) @ tl (follow (bptrs_t ! b) rest)"
    by (simp only: trace_back.simps Let_def Cons.IH)
  also have "\<dots> = acc @ follow (bptrs_t ! b) rest"
    using follow_unfold [of "bptrs_t ! b" rest] by simp
  finally show ?case by simp
qed

lemma trace_back_eq: "trace_back b [b] rest = follow b rest"
  using trace_back_follow [of b "[b]" rest] follow_hd [of b rest] follow_ne [of b rest]
  by (cases "follow b rest") auto

lemma pth_snoc: "pth (bps @ [bptrs]) k = pth bps (bptrs ! k) @ [k]"
  by (simp add: pth_def)

lemma pth_Nil: "pth [] k = [k]"
  by (simp add: pth_def)

lemma last_pth: "last (pth bps k) = k"
  by (simp add: pth_def last_rev follow_hd)

lemma length_pth: "length (pth bps k) = Suc (length bps)"
  by (simp add: pth_def length_follow)

lemma prefix_score_snoc:
  assumes "length tg = Suc (length done)"
  shows "prefix_score m (tg @ [k]) (done @ [feat])
         = prefix_score m tg done + transitions m ! k ! last tg + feat ! k"
proof -
  have ne: "tg \<noteq> []" using assms by auto
  have l: "tg ! length done = last tg"
    using assms ne by (simp add: last_conv_nth)
  have "(\<Sum>i<length done. transitions m ! ((tg @ [k]) ! Suc i) ! ((tg @ [k]) ! i)
                           + (done @ [feat]) ! i ! ((tg @ [k]) ! Suc i))
        = (\<Sum>i<length done. transitions m ! (tg ! Suc i) ! (tg ! i) + done ! i ! (tg ! Suc i))"
    using assms by (intro sum.cong refl) (simp add: nth_append)
  then show ?thesis
    using assms l by (simp add: prefix_score_def nth_append)
qed

lemma vadd_nth_lt:
  "i < length xs \<Longrightarrow> i < length ys \<Longrightarrow> vadd xs ys ! i = xs ! i + ys ! i"
  by (simp add: vadd_def)

lemma wf_feats_snoc:
  "wf_feats m (feats @ [feat]) \<longleftrightarrow> wf_feats m feats \<and> length feat = tagset_size m"
  by (auto simp: wf_feats_def)

lemma vstate_Nil: "vstate m [] = (init_alphas m, [])"
  by (simp add: vstate_def)

lemma vstate_snoc: "vstate m (feats @ [feat]) = vstep m (vstate m feats) feat"
  by (simp add: vstate_def)

lemma length_vstate:
  "wf_feats m feats \<Longrightarrow> length (fst (vstate m feats)) = tagset_size m"
proof (induction feats rule: rev_induct)
  case Nil
  show ?case by (simp add: vstate_Nil init_alphas_def)
next
  case (snoc feat feats)
  then show ?case by (simp add: vstate_snoc wf_feats_snoc length_vstep)
qed

lemma length_bps: "length (snd (vstate m feats)) = length feats"
  by (induction feats rule: rev_induct) (simp_all add: vstate_Nil vstate_snoc vstep_def)

lemma best_prev_lt:
  assumes "wf_model m" "length fv = tagset_size m" "k < tagset_size m"
  shows "best_prev m fv k < tagset_size m"
proof -
  have l: "length (vadd fv (transitions m ! k)) = tagset_size m"
    using assms(2) wf_model_row [OF assms(1) assms(3)] by (simp add: length_vadd)
  then have "vadd fv (transitions m ! k) \<noteq> []"
    using wf_model_pos [OF assms(1)] by auto
  then have "first_max (vadd fv (transitions m ! k)) < length (vadd fv (transitions m ! k))"
    by (rule first_max_lt)
  then show ?thesis using l by (simp add: best_prev_def)
qed

lemma vstep_nth:
  assumes "wf_model m" "length fv = tagset_size m" "length feat = tagset_size m"
          "k < tagset_size m"
  shows "fst (vstep m (fv, bps) feat) ! k
         = fv ! best_prev m fv k + transitions m ! k ! best_prev m fv k + feat ! k"
proof -
  let ?b = "best_prev m fv k"
  have b: "?b < tagset_size m" using assms(1) assms(2) assms(4) by (rule best_prev_lt)
  have "vadd fv (transitions m ! k) ! ?b = fv ! ?b + transitions m ! k ! ?b"
    using b assms(2) wf_model_row [OF assms(1) assms(4)] by (simp add: vadd_nth_lt)
  then show ?thesis
    using assms(3) assms(4) by (simp add: vstep_def vadd_nth_lt)
qed

lemma vstep_nth_ge:
  assumes "wf_model m" "length fv = tagset_size m" "length feat = tagset_size m"
          "k < tagset_size m" "j < tagset_size m"
  shows "fv ! j + transitions m ! k ! j + feat ! k \<le> fst (vstep m (fv, bps) feat) ! k"
proof -
  let ?v = "vadd fv (transitions m ! k)"
  let ?b = "best_prev m fv k"
  have b: "?b < tagset_size m" using assms(1) assms(2) assms(4) by (rule best_prev_lt)
  have l: "length ?v = tagset_size m"
    using assms(2) wf_model_row [OF assms(1) assms(4)] by (simp add: length_vadd)
  have "?v ! j \<in> set ?v" using l assms(5) by simp
  then have "?v ! j \<le> ?v ! ?b" unfolding best_prev_def by (rule first_max_ge)
  moreover have "?v ! j = fv ! j + transitions m ! k ! j"
    using assms(5) assms(2) wf_model_row [OF assms(1) assms(4)] by (simp add: vadd_nth_lt)
  moreover have "?v ! ?b = fv ! ?b + transitions m ! k ! ?b"
    using b assms(2) wf_model_row [OF assms(1) assms(4)] by (simp add: vadd_nth_lt)
  ultimately show ?thesis
    using vstep_nth [OF assms(1) assms(2) assms(3) assms(4), of bps] by simp
qed

lemma snd_vstep_nth:
  "k < tagset_size m \<Longrightarrow> pth (snd (vstep m (fv, bps) feat)) k = pth bps (best_prev m fv k) @ [k]"
  by (simp add: vstep_def pth_snoc)

lemma pth_ne: "pth bps k \<noteq> []"
  using length_pth [of bps k] by auto

lemma vstate_pth:
  assumes "wf_model m"
  shows "wf_feats m feats \<Longrightarrow> k < tagset_size m \<Longrightarrow>
         set (pth (snd (vstate m feats)) k) \<subseteq> {..<tagset_size m}
         \<and> fst (vstate m feats) ! k
             = init_alphas m ! hd (pth (snd (vstate m feats)) k)
               + prefix_score m (pth (snd (vstate m feats)) k) feats"
proof (induction feats arbitrary: k rule: rev_induct)
  case Nil
  then show ?case by (simp add: vstate_Nil pth_Nil prefix_score_def)
next
  case (snoc feat feats)
  obtain fv bps where st: "vstate m feats = (fv, bps)" by (cases "vstate m feats")
  have wf: "wf_feats m feats" and lf: "length feat = tagset_size m"
    using snoc.prems(1) by (simp_all add: wf_feats_snoc)
  have lfv: "length fv = tagset_size m" using length_vstate [OF wf] st by simp
  have lb: "length bps = length feats" using length_bps [of m feats] st by simp
  let ?b = "best_prev m fv k"
  have b: "?b < tagset_size m" using assms lfv snoc.prems(2) by (rule best_prev_lt)
  have ih: "set (pth bps ?b) \<subseteq> {..<tagset_size m}"
           "fv ! ?b = init_alphas m ! hd (pth bps ?b) + prefix_score m (pth bps ?b) feats"
    using snoc.IH [OF wf b] st by simp_all
  have p: "pth (snd (vstate m (feats @ [feat]))) k = pth bps ?b @ [k]"
    using snoc.prems(2) by (simp add: vstate_snoc st snd_vstep_nth)
  have "prefix_score m (pth bps ?b @ [k]) (feats @ [feat])
        = prefix_score m (pth bps ?b) feats + transitions m ! k ! ?b + feat ! k"
    using prefix_score_snoc [of "pth bps ?b" feats m k feat] lb
    by (simp add: length_pth last_pth)
  moreover have "fst (vstate m (feats @ [feat])) ! k
                 = fv ! ?b + transitions m ! k ! ?b + feat ! k"
    using vstep_nth [OF assms lfv lf snoc.prems(2)] by (simp add: vstate_snoc st)
  ultimately show ?case
    using ih snoc.prems(2) by (simp add: p pth_ne)
qed

lemma vstate_upper:
  assumes "wf_model m"
  shows "wf_feats m feats \<Longrightarrow> length tg = Suc (length feats) \<Longrightarrow>
         \<forall>t\<in>set tg. t < tagset_size m \<Longrightarrow>
         init_alphas m ! hd tg + prefix_score m tg feats \<le> fst (vstate m feats) ! last tg"
proof (induction feats arbitrary: tg rule: rev_induct)
  case Nil
  then obtain k where "tg = [k]" by (cases tg) auto
  then show ?case by (simp add: vstate_Nil prefix_score_def)
next
  case (snoc feat feats)
  obtain fv bps where st: "vstate m feats = (fv, bps)" by (cases "vstate m feats")
  have wf: "wf_feats m feats" and lf: "length feat = tagset_size m"
    using snoc.prems(1) by (simp_all add: wf_feats_snoc)
  have lfv: "length fv = tagset_size m" using length_vstate [OF wf] st by simp
  obtain tg' k where tg: "tg = tg' @ [k]"
    using snoc.prems(2) by (cases tg rule: rev_cases) auto
  have l': "length tg' = Suc (length feats)" using snoc.prems(2) tg by simp
  have ne: "tg' \<noteq> []" using l' by auto
  have k: "k < tagset_size m" and all': "\<forall>t\<in>set tg'. t < tagset_size m"
    using snoc.prems(3) tg by simp_all
  have j: "last tg' < tagset_size m" using all' ne last_in_set by blast
  have ih: "init_alphas m ! hd tg' + prefix_score m tg' feats \<le> fv ! last tg'"
    using snoc.IH [OF wf l' all'] st by simp
  have "prefix_score m tg (feats @ [feat])
        = prefix_score m tg' feats + transitions m ! k ! last tg' + feat ! k"
    unfolding tg using l' by (rule prefix_score_snoc)
  moreover have "fv ! last tg' + transitions m ! k ! last tg' + feat ! k
                 \<le> fst (vstate m (feats @ [feat])) ! k"
    using vstep_nth_ge [OF assms lfv lf k j] by (simp add: vstate_snoc st)
  ultimately show ?case
    using ih ne by (simp add: tg)
qed

lemma length_vterminal:
  assumes "wf_model m" "wf_feats m feats"
  shows "length (vterminal m feats) = tagset_size m"
  using length_vstate [OF assms(2)] assms(1)
  by (simp add: vterminal_def length_vadd wf_model_def list_all_length)

lemma vterminal_nth:
  assumes "wf_model m" "wf_feats m feats" "k < tagset_size m"
  shows "vterminal m feats ! k = fst (vstate m feats) ! k + transitions m ! stop_ix m ! k"
  using length_vstate [OF assms(2)] assms(1) assms(3)
  by (simp add: vterminal_def vadd_nth_lt wf_model_def list_all_length)

lemma vbest_lt:
  assumes "wf_model m" "wf_feats m feats"
  shows "vbest m feats < tagset_size m"
proof -
  have "vterminal m feats \<noteq> []"
    using length_vterminal [OF assms] wf_model_pos [OF assms(1)] by auto
  then have "first_max (vterminal m feats) < length (vterminal m feats)"
    by (rule first_max_lt)
  then show ?thesis using length_vterminal [OF assms] by (simp add: vbest_def)
qed

lemma viterbi_trace_eq:
  assumes "wf_model m" "wf_feats m feats"
  shows "viterbi_trace m feats
         = Inr (vterminal m feats ! vbest m feats, rev (vpath m feats))"
proof -
  obtain fv bps where st: "vstate m feats = (fv, bps)" by (cases "vstate m feats")
  have li: "length (init_alphas m) = tagset_size m" by (simp add: init_alphas_def)
  have loop: "viterbi_loop m (init_alphas m) [] feats = Inr (fv, bps)"
    using viterbi_loop_eq [OF assms(1) assms(2) li, of "[]"] st by (simp add: vstate_def)
  have ne: "vterminal m feats \<noteq> []"
    using length_vterminal [OF assms] wf_model_pos [OF assms(1)] by auto
  have t: "vadd fv (transitions m ! stop_ix m) = vterminal m feats"
    by (simp add: vterminal_def st)
  have a: "argmax (vterminal m feats) = Inr (vbest m feats)"
    using ne by (simp add: argmax_def vbest_def)
  have p: "trace_back (vbest m feats) [vbest m feats] (rev bps) = rev (vpath m feats)"
    by (simp add: trace_back_eq vpath_def pth_def st)
  show ?thesis
    by (simp only: viterbi_trace_def loop sum.case prod.case Let_def t a p)
qed

lemma viterbi_decode_eq:
  assumes "wf_model m" "wf_feats m feats"
  shows "viterbi_decode m feats
         = (if hd (vpath m feats) = start_ix m
            then Inr (vterminal m feats ! vbest m feats, tl (vpath m feats))
            else Inl AssertionError)"
proof -
  have ne: "vpath m feats \<noteq> []" by (simp add: vpath_def pth_ne)
  have a: "last (rev (vpath m feats)) = hd (vpath m feats)"
    using ne by (simp add: last_rev)
  have b: "rev (butlast (rev (vpath m feats))) = tl (vpath m feats)"
    by (simp add: butlast_rev)
  show ?thesis
    by (simp only: viterbi_decode_def viterbi_trace_eq [OF assms] sum.case prod.case Let_def a b)
qed

lemma path_score_from_prefix:
  "path_score_from m s feats tags0
   = prefix_score m (s # tags0) feats + transitions m ! stop_ix m ! last (s # tags0)"
  by (simp add: path_score_from_def prefix_score_def Let_def)

lemma vpath_props:
  assumes "wf_model m" "wf_feats m feats"
  shows "length (vpath m feats) = Suc (length feats)"
        "set (vpath m feats) \<subseteq> {..<tagset_size m}"
        "last (vpath m feats) = vbest m feats"
        "vterminal m feats ! vbest m feats
         = init_alphas m ! hd (vpath m feats) + prefix_score m (vpath m feats) feats
           + transitions m ! stop_ix m ! last (vpath m feats)"
proof -
  have b: "vbest m feats < tagset_size m" using assms by (rule vbest_lt)
  show "length (vpath m feats) = Suc (length feats)"
    by (simp add: vpath_def length_pth length_bps)
  show "set (vpath m feats) \<subseteq> {..<tagset_size m}"
    using vstate_pth [OF assms b] by (simp add: vpath_def)
  show l: "last (vpath m feats) = vbest m feats"
    by (simp add: vpath_def last_pth)
  show "vterminal m feats ! vbest m feats
         = init_alphas m ! hd (vpath m feats) + prefix_score m (vpath m feats) feats
           + transitions m ! stop_ix m ! last (vpath m feats)"
    using vstate_pth [OF assms b] vterminal_nth [OF assms b] l by (simp add: vpath_def)
qed

lemma viterbi_decode_result:
  assumes "wf_model m" "wf_feats m feats" "viterbi_decode m feats = Inr (score, path)"
  shows "wf_tags m feats path" "score = path_score m feats path"
        "vpath m feats = start_ix m # path"
proof -
  have hd: "hd (vpath m feats) = start_ix m"
    and sc: "score = vterminal m feats ! vbest m feats"
    and pa: "path = tl (vpath m feats)"
    using assms(3) viterbi_decode_eq [OF assms(1) assms(2)] by (auto split: if_splits)
  have ne: "vpath m feats \<noteq> []" by (simp add: vpath_def pth_ne)
  show p: "vpath m feats = start_ix m # path"
    using hd pa ne by (cases "vpath m feats") auto
  have "length path = length feats"
    using vpath_props(1) [OF assms(1) assms(2)] p by simp
  moreover have "set path \<subseteq> {..<tagset_size m}"
    using vpath_props(2) [OF assms(1) assms(2)] p by simp
  ultimately show "wf_tags m feats path"
    by (auto simp: wf_tags_def list_all_iff)
  show "score = path_score m feats path"
    using vpath_props(4) [OF assms(1) assms(2)] init_alphas_start [OF assms(1)]
    by (simp add: sc p path_score_def path_score_from_prefix)
qed

lemma viterbi_decode_optimal:
  assumes "wf_model m" "wf_feats m feats" "wf_tags m feats tags"
  shows "path_score m feats tags \<le> vterminal m feats ! vbest m feats"
proof -
  let ?tg = "start_ix m # tags"
  have len: "length ?tg = Suc (length feats)" using assms(3) by (simp add: wf_tags_def)
  have all: "\<forall>t\<in>set ?tg. t < tagset_size m"
    using assms(1) assms(3) by (simp add: wf_tags_def wf_model_def list_all_iff)
  have j: "last ?tg < tagset_size m" using all last_in_set [of ?tg] by blast
  have "init_alphas m ! hd ?tg + prefix_score m ?tg feats \<le> fst (vstate m feats) ! last ?tg"
    using assms(1) assms(2) len all by (rule vstate_upper)
  then have "path_score m feats tags \<le> vterminal m feats ! last ?tg"
    using init_alphas_start [OF assms(1)] vterminal_nth [OF assms(1) assms(2) j]
    by (simp add: path_score_def path_score_from_prefix)
  moreover have "vterminal m feats ! last ?tg \<in> set (vterminal m feats)"
    using j length_vterminal [OF assms(1) assms(2)] by simp
  then have "vterminal m feats ! last ?tg \<le> vterminal m feats ! vbest m feats"
    unfolding vbest_def by (rule first_max_ge)
  ultimately show ?thesis by linarith
qed

subsection \<open>Viterbi decoding: the start check and the round trip\<close>

lemma list_all_upt: "list_all P [0..<n] \<longleftrightarrow> (\<forall>i<n. P i)"
  by (auto simp: list_all_iff)

lemma start_dominatesD:
  "start_dominates m \<Longrightarrow> k < tagset_size m \<Longrightarrow> j < tagset_size m \<Longrightarrow> j \<noteq> start_ix m \<Longrightarrow>
   transitions m ! k ! j - 10000 < transitions m ! k ! start_ix m"
  by (simp add: start_dominates_def list_all_upt) blast

lemma sentinelD:
  "sentinel m \<Longrightarrow> j < tagset_size m \<Longrightarrow> transitions m ! start_ix m ! j = - 10000"
  "sentinel m \<Longrightarrow> i < tagset_size m \<Longrightarrow> transitions m ! i ! stop_ix m = - 10000"
  by (simp_all add: sentinel_def list_all_upt)

lemma small_transitionsD:
  "small_transitions m \<Longrightarrow> i < tagset_size m \<Longrightarrow> j < tagset_size m \<Longrightarrow>
   i \<noteq> start_ix m \<Longrightarrow> j \<noteq> stop_ix m \<Longrightarrow> \<bar>transitions m ! i ! j\<bar> < 5000"
  by (simp add: small_transitions_def list_all_upt) blast

lemma first_max_unique:
  assumes "i < length xs" "\<forall>j<length xs. j \<noteq> i \<longrightarrow> xs ! j < xs ! i"
  shows "first_max xs = i"
proof (rule ccontr)
  assume ne: "first_max xs \<noteq> i"
  have "xs \<noteq> []" using assms(1) by auto
  then have b: "first_max xs < length xs" by (rule first_max_lt)
  have "xs ! i \<in> set xs" using assms(1) by simp
  then have "xs ! i \<le> xs ! first_max xs" by (rule first_max_ge)
  moreover have "xs ! first_max xs < xs ! i" using assms(2) b ne by blast
  ultimately show False by simp
qed

lemma best_prev_init:
  assumes "wf_model m" "start_dominates m" "k < tagset_size m"
  shows "best_prev m (init_alphas m) k = start_ix m"
proof -
  let ?v = "vadd (init_alphas m) (transitions m ! k)"
  have li: "length (init_alphas m) = tagset_size m" by (simp add: init_alphas_def)
  have lr: "length (transitions m ! k) = tagset_size m"
    using assms(1) assms(3) by (rule wf_model_row)
  have l: "length ?v = tagset_size m" using li lr by (simp add: length_vadd)
  have s: "start_ix m < tagset_size m" using assms(1) by (simp add: wf_model_def)
  have n: "?v ! j = init_alphas m ! j + transitions m ! k ! j" if "j < tagset_size m" for j
    using that li lr by (simp add: vadd_nth_lt)
  have "\<forall>j<length ?v. j \<noteq> start_ix m \<longrightarrow> ?v ! j < ?v ! start_ix m"
  proof (intro allI impI)
    fix j assume j: "j < length ?v" "j \<noteq> start_ix m"
    then have jt: "j < tagset_size m" using l by simp
    have "transitions m ! k ! j - 10000 < transitions m ! k ! start_ix m"
      using assms(2) assms(3) jt j(2) by (rule start_dominatesD)
    then show "?v ! j < ?v ! start_ix m"
      using n [OF jt] n [OF s] init_alphas_start [OF assms(1)] init_alphas_other [OF jt j(2)]
      by simp
  qed
  then have "first_max ?v = start_ix m"
    using s l by (intro first_max_unique) simp_all
  then show ?thesis by (simp add: best_prev_def)
qed

lemma hd_pth_start:
  assumes "wf_model m" "start_dominates m"
  shows "wf_feats m feats \<Longrightarrow> feats \<noteq> [] \<Longrightarrow> k < tagset_size m \<Longrightarrow>
         hd (pth (snd (vstate m feats)) k) = start_ix m"
proof (induction feats arbitrary: k rule: rev_induct)
  case Nil
  then show ?case by simp
next
  case (snoc feat feats)
  obtain fv bps where st: "vstate m feats = (fv, bps)" by (cases "vstate m feats")
  have wf: "wf_feats m feats" using snoc.prems(1) by (simp add: wf_feats_snoc)
  have lfv: "length fv = tagset_size m" using length_vstate [OF wf] st by simp
  let ?b = "best_prev m fv k"
  have b: "?b < tagset_size m" using assms(1) lfv snoc.prems(3) by (rule best_prev_lt)
  have p: "pth (snd (vstate m (feats @ [feat]))) k = pth bps ?b @ [k]"
    using snoc.prems(3) by (simp add: vstate_snoc st snd_vstep_nth)
  show ?case
  proof (cases "feats = []")
    case True
    then have "fv = init_alphas m" "bps = []" using st by (simp_all add: vstate_Nil)
    then show ?thesis
      using best_prev_init [OF assms snoc.prems(3)] by (simp add: p pth_Nil)
  next
    case False
    then have "hd (pth bps ?b) = start_ix m"
      using snoc.IH [OF wf False b] st by simp
    then show ?thesis by (simp add: p pth_ne)
  qed
qed

lemma hd_vpath_start:
  assumes "wf_model m" "wf_feats m feats" "start_dominates m"
  shows "hd (vpath m feats) = start_ix m"
proof (cases "feats = []")
  case True
  have s: "stop_ix m < tagset_size m" using assms(1) by (simp add: wf_model_def)
  have "vbest m [] = best_prev m (init_alphas m) (stop_ix m)"
    by (simp add: vbest_def vterminal_def vstate_Nil best_prev_def)
  then show ?thesis
    using best_prev_init [OF assms(1) assms(3) s] True
    by (simp add: vpath_def vstate_Nil pth_Nil)
next
  case False
  show ?thesis
    unfolding vpath_def
    using assms(1) assms(3) assms(2) False vbest_lt [OF assms(1) assms(2)]
    by (rule hd_pth_start)
qed

lemma small_dominates:
  assumes "wf_model m" "sentinel m" "start_ix m \<noteq> stop_ix m" "small_transitions m"
  shows "start_dominates m"
proof -
  have s: "start_ix m < tagset_size m" using assms(1) by (simp add: wf_model_def)
  have "j = start_ix m \<or> transitions m ! k ! j - 10000 < transitions m ! k ! start_ix m"
    if k: "k < tagset_size m" and j: "j < tagset_size m" for k j
  proof (cases "j = start_ix m")
    case True
    then show ?thesis by simp
  next
    case jne: False
    show ?thesis
    proof (cases "k = start_ix m")
      case True
      then show ?thesis
        using sentinelD(1) [OF assms(2) j] sentinelD(1) [OF assms(2) s] by simp
    next
      case False
      have a: "\<bar>transitions m ! k ! start_ix m\<bar> < 5000"
        using assms(4) k s False assms(3) by (rule small_transitionsD)
      show ?thesis
      proof (cases "j = stop_ix m")
        case True
        then show ?thesis using sentinelD(2) [OF assms(2) k] a by (simp add: abs_less_iff)
      next
        case False
        have "\<bar>transitions m ! k ! j\<bar> < 5000"
          using assms(4) k j \<open>k \<noteq> start_ix m\<close> False by (rule small_transitionsD)
        then show ?thesis using a by (simp add: abs_less_iff)
      qed
    qed
  qed
  then show ?thesis by (simp add: start_dominates_def list_all_upt)
qed

text \<open>
  C4. When \<open>viterbi_decode\<close> returns a score and a path, \<open>score_sentence\<close> on the same
  emissions and that path returns exactly that score.
\<close>

theorem viterbi_score_roundtrip:
  assumes "wf_model m" "wf_feats m feats" "viterbi_decode m feats = Inr (score, path)"
  shows "score_sentence m feats path = Inr score"
  using score_sentence_eq [OF assms(1) viterbi_decode_result(1) [OF assms]]
        viterbi_decode_result(2) [OF assms]
  by simp

theorem viterbi_score_roundtrip_witness:
  "wf_model toy_model \<and> wf_feats toy_model toy_feats
   \<and> viterbi_decode toy_model toy_feats = Inr (19, [0, 0])
   \<and> score_sentence toy_model toy_feats [0, 0] = Inr 19"
  using viterbi_score_roundtrip [OF wf_toy toy_decode] wf_toy toy_decode by simp

text \<open>
  C6. \<open>viterbi_decode\<close> reconstructs a path of one tag per position and the tag before
  the first position, last tag first. When that tag is the start tag, it returns the
  score and the path reversed with the start tag popped off, of the length of the
  sentence; when it is not, it fails with an assertion error. When the model has the
  sentinel row and column, the start and the stop index differ and every other entry
  of the transition matrix is below 5000 in absolute value, that tag is the start
  tag, for every emission matrix, so the assertion does not fail.
\<close>

theorem viterbi_start_check:
  assumes "wf_model m" "wf_feats m feats"
  shows "\<exists>score best_path.
           viterbi_trace m feats = Inr (score, best_path)
           \<and> length best_path = Suc (length feats)
           \<and> viterbi_decode m feats
               = (if last best_path = start_ix m then Inr (score, rev (butlast best_path))
                  else Inl AssertionError)
           \<and> length (rev (butlast best_path)) = length feats
           \<and> (sentinel m \<and> start_ix m \<noteq> stop_ix m \<and> small_transitions m
                \<longrightarrow> last best_path = start_ix m)"
proof -
  let ?score = "vterminal m feats ! vbest m feats"
  let ?bp = "rev (vpath m feats)"
  have ne: "vpath m feats \<noteq> []" by (simp add: vpath_def pth_ne)
  have t: "viterbi_trace m feats = Inr (?score, ?bp)"
    using assms by (rule viterbi_trace_eq)
  have l: "length ?bp = Suc (length feats)"
    using vpath_props(1) [OF assms] by simp
  have la: "last ?bp = hd (vpath m feats)" using ne by (simp add: last_rev)
  have d: "viterbi_decode m feats
           = (if last ?bp = start_ix m then Inr (?score, rev (butlast ?bp))
              else Inl AssertionError)"
    by (simp only: viterbi_decode_def t sum.case prod.case Let_def)
  have lp: "length (rev (butlast ?bp)) = length feats" using l by simp
  have dom: "sentinel m \<and> start_ix m \<noteq> stop_ix m \<and> small_transitions m
             \<longrightarrow> last ?bp = start_ix m"
  proof
    assume a: "sentinel m \<and> start_ix m \<noteq> stop_ix m \<and> small_transitions m"
    then have "start_dominates m" using assms(1) small_dominates by blast
    then show "last ?bp = start_ix m"
      using hd_vpath_start [OF assms] la by simp
  qed
  show ?thesis using t l d lp dom by blast
qed

theorem viterbi_start_check_witness:
  "wf_model toy_model \<and> wf_feats toy_model toy_feats \<and> sentinel toy_model
   \<and> start_ix toy_model \<noteq> stop_ix toy_model \<and> small_transitions toy_model
   \<and> viterbi_trace toy_model toy_feats = Inr (19, [0, 0, 1])
   \<and> viterbi_decode toy_model toy_feats = Inr (19, [0, 0])"
proof -
  obtain score best_path where
    t: "viterbi_trace toy_model toy_feats = Inr (score, best_path)" and
    d: "viterbi_decode toy_model toy_feats
        = (if last best_path = start_ix toy_model then Inr (score, rev (butlast best_path))
           else Inl AssertionError)" and
    s: "sentinel toy_model \<and> start_ix toy_model \<noteq> stop_ix toy_model
        \<and> small_transitions toy_model \<longrightarrow> last best_path = start_ix toy_model"
    using viterbi_start_check [OF wf_toy] by blast
  have e: "score = 19" "best_path = [0, 0, 1]" using t toy_trace by simp_all
  have "last best_path = start_ix toy_model" using s toy_sentinel toy_small by blast
  then have "viterbi_decode toy_model toy_feats = Inr (19, [0, 0])" using d e by simp
  then show ?thesis using wf_toy toy_sentinel toy_small toy_trace by simp
qed

text \<open>
  The sentinel row and column alone do not keep the assertion from failing: in
  \<open>large_model\<close> they are in place, and on a sentence of one position the trace ends
  at tag 0, which is not the start tag.
\<close>

theorem viterbi_assertion_fails:
  "init toy_tag_to_ix large_randn = Inr large_model
   \<and> wf_model large_model \<and> wf_feats large_model large_feats \<and> sentinel large_model
   \<and> length large_feats = 1
   \<and> viterbi_trace large_model large_feats = Inr (10000, [0, 0])
   \<and> start_ix large_model = 1
   \<and> viterbi_decode large_model large_feats = Inl AssertionError"
  using large_init wf_large large_sentinel large_trace large_decode
  by (simp add: large_feats_def large_model_def)

subsection \<open>Viterbi decoding: no sentinel tag on the path\<close>

lemma path_score_split:
  assumes "length tags = length feats"
  shows "path_score m feats tags = trans_sum m tags + emit_sum feats tags"
proof -
  let ?tg = "start_ix m # tags"
  let ?L = "length feats"
  have a: "ext_tags m tags ! i = ?tg ! i" if "i \<le> ?L" for i
    using that assms by (simp add: ext_tags_def nth_append del: append_Cons)
  have b: "ext_tags m tags ! Suc ?L = stop_ix m"
    using assms nth_append_length [of ?tg "stop_ix m" "[]"]
    by (simp add: ext_tags_def del: append_Cons)
  have "trans_at m tags i = transitions m ! (?tg ! Suc i) ! (?tg ! i)" if "i < ?L" for i
    using that a [of i] a [of "Suc i"] by (simp add: trans_at_def)
  then have "(\<Sum>i<?L. trans_at m tags i) = (\<Sum>i<?L. transitions m ! (?tg ! Suc i) ! (?tg ! i))"
    by (intro sum.cong refl) simp
  moreover have "trans_at m tags ?L = transitions m ! stop_ix m ! last ?tg"
  proof -
    have l: "last ?tg = ?tg ! ?L"
      by (subst last_conv_nth) (simp_all add: assms)
    show ?thesis unfolding l using a [of ?L] b by (simp add: trans_at_def)
  qed
  ultimately have "trans_sum m tags
        = (\<Sum>i<?L. transitions m ! (?tg ! Suc i) ! (?tg ! i)) + transitions m ! stop_ix m ! last ?tg"
    using assms by (simp add: trans_sum_def)
  then show ?thesis
    by (simp add: path_score_def path_score_from_def emit_sum_def Let_def sum.distrib)
qed

lemma small_scoresD:
  "small_scores m feats Bm Be \<Longrightarrow> i < tagset_size m \<Longrightarrow> j < tagset_size m \<Longrightarrow>
   i \<noteq> start_ix m \<Longrightarrow> j \<noteq> stop_ix m \<Longrightarrow> \<bar>transitions m ! i ! j\<bar> \<le> Bm"
  "small_scores m feats Bm Be \<Longrightarrow> i < length feats \<Longrightarrow> k < tagset_size m \<Longrightarrow>
   \<bar>feats ! i ! k\<bar> \<le> Be"
  by (simp add: small_scores_def list_all_upt, blast)
     (simp add: small_scores_def list_all_upt list_all_length)

lemma ext_tags_nth:
  "ext_tags m tags ! 0 = start_ix m"
  "i < length tags \<Longrightarrow> ext_tags m tags ! Suc i = tags ! i"
  "ext_tags m tags ! Suc (length tags) = stop_ix m"
  by (simp_all add: ext_tags_def nth_append)

lemma ext_tags_lt:
  assumes "wf_model m" "list_all (\<lambda>t. t < tagset_size m) tags" "i < length tags + 2"
  shows "ext_tags m tags ! i < tagset_size m"
proof -
  have "\<forall>x\<in>set (ext_tags m tags). x < tagset_size m"
    using assms(1) assms(2) by (auto simp: ext_tags_def wf_model_def list_all_iff)
  moreover have "ext_tags m tags ! i \<in> set (ext_tags m tags)"
    using assms(3) by (intro nth_mem) (simp add: ext_tags_def)
  ultimately show ?thesis by blast
qed

lemma trans_at_sentinel:
  assumes "wf_model m" "sentinel m" "list_all (\<lambda>t. t < tagset_size m) tags" "i \<le> length tags"
          "ext_tags m tags ! Suc i = start_ix m \<or> ext_tags m tags ! i = stop_ix m"
  shows "trans_at m tags i = - 10000"
proof -
  have a: "ext_tags m tags ! Suc i < tagset_size m" and b: "ext_tags m tags ! i < tagset_size m"
    using assms(4) by (auto intro!: ext_tags_lt [OF assms(1) assms(3)])
  show ?thesis
    using assms(5) sentinelD(1) [OF assms(2) b] sentinelD(2) [OF assms(2) a]
    by (auto simp: trans_at_def)
qed

lemma trans_at_abs:
  assumes "wf_model m" "small_scores m feats Bm Be"
          "list_all (\<lambda>t. t < tagset_size m) tags" "i \<le> length tags"
          "ext_tags m tags ! Suc i \<noteq> start_ix m" "ext_tags m tags ! i \<noteq> stop_ix m"
  shows "\<bar>trans_at m tags i\<bar> \<le> Bm"
proof -
  have a: "ext_tags m tags ! Suc i < tagset_size m" and b: "ext_tags m tags ! i < tagset_size m"
    using assms(4) by (auto intro!: ext_tags_lt [OF assms(1) assms(3)])
  show ?thesis
    unfolding trans_at_def using assms(2) a b assms(5) assms(6) by (rule small_scoresD(1))
qed

lemma trans_at_le:
  assumes "wf_model m" "sentinel m" "small_scores m feats Bm Be" "0 \<le> Bm"
          "list_all (\<lambda>t. t < tagset_size m) tags" "i \<le> length tags"
  shows "trans_at m tags i \<le> Bm"
proof (cases "ext_tags m tags ! Suc i = start_ix m \<or> ext_tags m tags ! i = stop_ix m")
  case True
  then have "trans_at m tags i = - 10000"
    using assms(1) assms(2) assms(5) assms(6) trans_at_sentinel by blast
  then show ?thesis using assms(4) by simp
next
  case False
  then have "\<bar>trans_at m tags i\<bar> \<le> Bm"
    using assms(1) assms(3) assms(5) assms(6) trans_at_abs by blast
  then show ?thesis by simp
qed

lemma emit_sum_abs:
  assumes "small_scores m feats Bm Be" "wf_tags m feats tags"
  shows "\<bar>emit_sum feats tags\<bar> \<le> real (length feats) * Be"
proof -
  have "\<bar>feats ! i ! (tags ! i)\<bar> \<le> Be" if "i < length feats" for i
    using assms that by (intro small_scoresD(2)) (auto simp: wf_tags_def list_all_length)
  then have "(\<Sum>i<length feats. \<bar>feats ! i ! (tags ! i)\<bar>) \<le> real (card {..<length feats}) * Be"
    by (intro sum_bounded_above) simp
  moreover have "\<bar>emit_sum feats tags\<bar> \<le> (\<Sum>i<length feats. \<bar>feats ! i ! (tags ! i)\<bar>)"
    unfolding emit_sum_def by (rule sum_abs)
  ultimately show ?thesis by simp
qed

lemma clean_path_lower:
  assumes "wf_model m" "small_scores m feats Bm Be" "wf_tags m feats tags"
          "start_ix m \<noteq> stop_ix m" "start_ix m \<notin> set tags" "stop_ix m \<notin> set tags"
  shows "- (real (length feats) + 1) * Bm - real (length feats) * Be \<le> path_score m feats tags"
proof -
  have len: "length tags = length feats" and all: "list_all (\<lambda>t. t < tagset_size m) tags"
    using assms(3) by (simp_all add: wf_tags_def)
  have "- Bm \<le> trans_at m tags i" if i: "i < Suc (length tags)" for i
  proof -
    have "ext_tags m tags ! Suc i \<in> set (tags @ [stop_ix m])"
      using i by (simp add: ext_tags_def del: set_append) 
    then have a: "ext_tags m tags ! Suc i \<noteq> start_ix m"
      using assms(4) assms(5) by auto
    have "ext_tags m tags ! i = (start_ix m # tags) ! i"
      using i by (simp add: ext_tags_def nth_append del: append_Cons)
    moreover have "(start_ix m # tags) ! i \<in> set (start_ix m # tags)"
      using i by (intro nth_mem) simp
    ultimately have b: "ext_tags m tags ! i \<noteq> stop_ix m"
      using assms(4) assms(6) by auto
    have "\<bar>trans_at m tags i\<bar> \<le> Bm"
      using assms(1) assms(2) all _ a b by (rule trans_at_abs) (use i in simp)
    then show ?thesis by simp
  qed
  then have "real (card {..<Suc (length tags)}) * (- Bm) \<le> trans_sum m tags"
    unfolding trans_sum_def by (intro sum_bounded_below) simp
  then have "- (real (length feats) + 1) * Bm \<le> trans_sum m tags"
    using len by (simp add: algebra_simps)
  moreover have "- (real (length feats) * Be) \<le> emit_sum feats tags"
    using emit_sum_abs [OF assms(2) assms(3)] by simp
  ultimately show ?thesis
    using path_score_split [OF len, of m] by simp
qed

lemma sentinel_path_upper:
  assumes "wf_model m" "sentinel m" "small_scores m feats Bm Be" "0 \<le> Bm"
          "wf_tags m feats tags" "start_ix m \<in> set tags \<or> stop_ix m \<in> set tags"
  shows "path_score m feats tags \<le> - 10000 + real (length feats) * Bm + real (length feats) * Be"
proof -
  have len: "length tags = length feats" and all: "list_all (\<lambda>t. t < tagset_size m) tags"
    using assms(5) by (simp_all add: wf_tags_def)
  obtain p where p: "p < length tags" "tags ! p = start_ix m \<or> tags ! p = stop_ix m"
    using assms(6) by (auto simp: in_set_conv_nth)
  have "\<exists>q\<le>length tags. trans_at m tags q = - 10000"
  proof (cases "tags ! p = start_ix m")
    case True
    then have "ext_tags m tags ! Suc p = start_ix m" using p(1) by (simp add: ext_tags_nth)
    then have "trans_at m tags p = - 10000"
      using assms(1) assms(2) all p(1) by (intro trans_at_sentinel) simp_all
    then show ?thesis using p(1) by (intro exI [of _ p]) simp
  next
    case False
    then have "ext_tags m tags ! Suc p = stop_ix m" using p by (simp add: ext_tags_nth)
    then have "trans_at m tags (Suc p) = - 10000"
      using assms(1) assms(2) all p(1) by (intro trans_at_sentinel) simp_all
    then show ?thesis using p(1) by (intro exI [of _ "Suc p"]) simp
  qed
  then obtain q where q: "q \<le> length tags" "trans_at m tags q = - 10000" by blast
  let ?A = "{..<Suc (length tags)}"
  have "trans_sum m tags = trans_at m tags q + (\<Sum>i\<in>?A - {q}. trans_at m tags i)"
    unfolding trans_sum_def using q(1) by (intro sum.remove) simp_all
  moreover have "(\<Sum>i\<in>?A - {q}. trans_at m tags i) \<le> real (card (?A - {q})) * Bm"
    using trans_at_le [OF assms(1) assms(2) assms(3) assms(4) all]
    by (intro sum_bounded_above) simp
  moreover have "card (?A - {q}) = length feats" using q(1) len by simp
  ultimately have "trans_sum m tags \<le> - 10000 + real (length feats) * Bm"
    using q(2) by simp
  moreover have "emit_sum feats tags \<le> real (length feats) * Be"
    using emit_sum_abs [OF assms(3) assms(5)] by simp
  ultimately show ?thesis
    using path_score_split [OF len, of m] by simp
qed

lemma small_scores_dominates:
  assumes "wf_model m" "sentinel m" "start_ix m \<noteq> stop_ix m" "small_scores m feats Bm Be"
          "2 * Bm < 10000"
  shows "start_dominates m"
proof -
  have s: "start_ix m < tagset_size m" using assms(1) by (simp add: wf_model_def)
  have "j = start_ix m \<or> transitions m ! k ! j - 10000 < transitions m ! k ! start_ix m"
    if k: "k < tagset_size m" and j: "j < tagset_size m" for k j
  proof (cases "j = start_ix m")
    case True
    then show ?thesis by simp
  next
    case jne: False
    show ?thesis
    proof (cases "k = start_ix m")
      case True
      then show ?thesis
        using sentinelD(1) [OF assms(2) j] sentinelD(1) [OF assms(2) s] by simp
    next
      case False
      have a: "\<bar>transitions m ! k ! start_ix m\<bar> \<le> Bm"
        using assms(4) k s False assms(3) by (rule small_scoresD(1))
      show ?thesis
      proof (cases "j = stop_ix m")
        case True
        then show ?thesis
          using sentinelD(2) [OF assms(2) k] a assms(5) by (simp add: abs_le_iff)
      next
        case False
        have "\<bar>transitions m ! k ! j\<bar> \<le> Bm"
          using assms(4) k j \<open>k \<noteq> start_ix m\<close> False by (rule small_scoresD(1))
        then show ?thesis using a assms(5) by (simp add: abs_le_iff)
      qed
    qed
  qed
  then show ?thesis by (simp add: start_dominates_def list_all_upt)
qed

lemma toy_small_scores: "small_scores toy_model toy_feats 4 10"
  by code_simp

text \<open>
  C5. Let the model have the sentinel row and column, different start and stop indices
  and a tag \<open>r\<close> that is neither. Let \<open>Bm\<close> bound the absolute value of the transition
  scores outside the sentinel row and column and \<open>Be\<close> that of the emissions, and let
  them be small enough for -10000 to dominate every path score of a sentence of \<open>L\<close>
  positions: \<open>(2 L + 2) Bm + 2 L Be < 10000\<close>. Then \<open>viterbi_decode\<close> returns a path of
  length \<open>L\<close> that contains neither the start nor the stop index.
\<close>

theorem viterbi_no_sentinel:
  assumes "wf_model m" "wf_feats m feats" "sentinel m" "start_ix m \<noteq> stop_ix m"
          "r < tagset_size m" "r \<noteq> start_ix m" "r \<noteq> stop_ix m"
          "small_scores m feats Bm Be"
          "(2 * real (length feats) + 2) * Bm + 2 * real (length feats) * Be < 10000"
  shows "\<exists>score path. viterbi_decode m feats = Inr (score, path)
           \<and> length path = length feats
           \<and> start_ix m \<notin> set path \<and> stop_ix m \<notin> set path"
proof -
  let ?L = "real (length feats)"
  have "\<bar>transitions m ! r ! r\<bar> \<le> Bm"
    using assms(8) assms(5) assms(5) assms(6) assms(7) by (rule small_scoresD(1))
  then have bm: "0 \<le> Bm" by simp
  have be: "0 \<le> ?L * Be"
  proof (cases "feats = []")
    case True
    then show ?thesis by simp
  next
    case False
    then have "\<bar>feats ! 0 ! r\<bar> \<le> Be"
      using assms(8) assms(5) by (intro small_scoresD(2)) simp_all
    then have "0 \<le> Be" by simp
    then show ?thesis by simp
  qed
  have lbm: "0 \<le> ?L * Bm" using bm by simp
  have "2 * Bm < 10000" using assms(9) be lbm by (simp add: algebra_simps)
  then have dom: "start_dominates m"
    using assms(1) assms(3) assms(4) assms(8) small_scores_dominates by blast
  let ?score = "vterminal m feats ! vbest m feats"
  let ?path = "tl (vpath m feats)"
  have d: "viterbi_decode m feats = Inr (?score, ?path)"
    using viterbi_decode_eq [OF assms(1) assms(2)] hd_vpath_start [OF assms(1) assms(2) dom]
    by simp
  have wf: "wf_tags m feats ?path" and sc: "?score = path_score m feats ?path"
    using viterbi_decode_result [OF assms(1) assms(2) d] by simp_all
  let ?clean = "replicate (length feats) r"
  have wfc: "wf_tags m feats ?clean"
    using assms(5) by (simp add: wf_tags_def list_all_iff)
  have "- (?L + 1) * Bm - ?L * Be \<le> path_score m feats ?clean"
    using assms(1) assms(8) wfc assms(4) assms(6) assms(7)
    by (intro clean_path_lower) auto
  moreover have "path_score m feats ?clean \<le> ?score"
    using assms(1) assms(2) wfc by (rule viterbi_decode_optimal)
  ultimately have low: "- (?L + 1) * Bm - ?L * Be \<le> path_score m feats ?path"
    using sc by simp
  have "\<not> (start_ix m \<in> set ?path \<or> stop_ix m \<in> set ?path)"
  proof
    assume "start_ix m \<in> set ?path \<or> stop_ix m \<in> set ?path"
    then have "path_score m feats ?path \<le> - 10000 + ?L * Bm + ?L * Be"
      using assms(1) assms(3) assms(8) bm wf by (intro sentinel_path_upper) simp_all
    then show False using low assms(9) bm by (simp add: algebra_simps)
  qed
  moreover have "length ?path = length feats" using wf by (simp add: wf_tags_def)
  ultimately show ?thesis using d by blast
qed

theorem viterbi_no_sentinel_witness:
  "wf_model toy_model \<and> wf_feats toy_model toy_feats \<and> sentinel toy_model
   \<and> start_ix toy_model \<noteq> stop_ix toy_model
   \<and> 0 < tagset_size toy_model \<and> 0 \<noteq> start_ix toy_model \<and> 0 \<noteq> stop_ix toy_model
   \<and> small_scores toy_model toy_feats 4 10
   \<and> (2 * real (length toy_feats) + 2) * 4 + 2 * real (length toy_feats) * 10 < 10000
   \<and> viterbi_decode toy_model toy_feats = Inr (19, [0, 0])
   \<and> start_ix toy_model \<notin> set [0, 0] \<and> stop_ix toy_model \<notin> set [0, 0]"
proof -
  have r: "0 < tagset_size toy_model" "0 \<noteq> start_ix toy_model" "0 \<noteq> stop_ix toy_model"
    by (simp_all add: toy_model_def)
  have b: "(2 * real (length toy_feats) + 2) * 4 + 2 * real (length toy_feats) * 10 < 10000"
    by (simp add: toy_feats_def)
  obtain score path where
    "viterbi_decode toy_model toy_feats = Inr (score, path)"
    "start_ix toy_model \<notin> set path \<and> stop_ix toy_model \<notin> set path"
    using viterbi_no_sentinel [OF wf_toy toy_sentinel toy_small(2) r toy_small_scores b]
    by blast
  then have "start_ix toy_model \<notin> set [0, 0] \<and> stop_ix toy_model \<notin> set [0, 0]"
    using toy_decode by simp
  then show ?thesis
    using wf_toy toy_sentinel toy_small(2) r toy_small_scores b toy_decode by blast
qed

subsection \<open>The constructor\<close>




lemma init_returns:
  assumes "map_of tag_to_ix START_TAG = Some s" "map_of tag_to_ix STOP_TAG = Some e"
          "s < length tag_to_ix" "e < length tag_to_ix"
  shows "\<exists>m. init tag_to_ix randn = Inr m \<and> start_ix m = s \<and> stop_ix m = e"
  using assms by (simp add: init_def Let_def)









subsection \<open>The model phase of \<open>main\<close>\<close>










subsection \<open>The partition\<close>

lemma shard_start_mono: "shard_start n p i \<le> shard_start n p (Suc i)"
  by (simp add: shard_start_def min_def)

lemma shard_start_0: "shard_start n p 0 = 0"
  by (simp add: shard_start_def)

lemma shard_start_last: "0 < p \<Longrightarrow> shard_start n p p = n"
proof -
  assume "0 < p"
  then have "n mod p < p" by simp
  then have "min p (n mod p) = n mod p" by simp
  then show ?thesis by (simp add: shard_start_def)
qed

lemma shard_size:
  "shard_start n p (Suc i) - shard_start n p i = (if i < n mod p then n div p + 1 else n div p)"
  by (simp add: shard_start_def min_def)

lemma shard_start_le: "0 < p \<Longrightarrow> i \<le> p \<Longrightarrow> shard_start n p i \<le> n"
proof -
  assume p: "0 < p" and i: "i \<le> p"
  have "shard_start n p i \<le> shard_start n p p"
    using i by (rule lift_Suc_mono_le [of "shard_start n p", OF shard_start_mono])
  then show ?thesis using shard_start_last [OF p] by simp
qed

lemma slice_append:
  "a \<le> b \<Longrightarrow> b \<le> c \<Longrightarrow> slice xs a b @ slice xs b c = slice xs a c"
proof -
  assume ab: "a \<le> b" and bc: "b \<le> c"
  have "take (b - a) (drop a xs) @ take (c - b) (drop (b - a) (drop a xs))
        = take ((b - a) + (c - b)) (drop a xs)"
    by (simp add: take_add)
  moreover have "drop (b - a) (drop a xs) = drop b xs" using ab by simp
  moreover have "(b - a) + (c - b) = c - a" using ab bc by simp
  ultimately show ?thesis by (simp add: slice_def)
qed

lemma concat_slices:
  "concat (map (\<lambda>i. slice xs (shard_start n p i) (shard_start n p (Suc i))) [0..<j])
   = slice xs 0 (shard_start n p j)"
proof (induction j)
  case 0
  show ?case by (simp add: slice_def shard_start_0)
next
  case (Suc j)
  have "0 \<le> shard_start n p j" by simp
  then show ?case
    using Suc slice_append [of 0 "shard_start n p j" "shard_start n p (Suc j)" xs]
          shard_start_mono [of n p j]
    by simp
qed

lemma length_slice:
  "b \<le> length xs \<Longrightarrow> length (slice xs a b) = b - a"
  by (simp add: slice_def)

lemma fragment_eq:
  "0 < p \<Longrightarrow> fragment p xs =
     Inr (map (\<lambda>i. slice xs (shard_start (length xs) p i) (shard_start (length xs) p (Suc i))) [0..<p])"
  by (simp add: fragment_def shard_start_def Let_def)

text \<open>
  C8. For a corpus of \<open>N\<close> examples and \<open>P > 0\<close> workers the partition returns \<open>P\<close>
  shards; shard \<open>i\<close> is the contiguous slice that starts at the end of shard \<open>i - 1\<close>;
  its size is \<open>N div P + 1\<close> for the first \<open>N mod P\<close> shards and \<open>N div P\<close> for the others,
  so any two sizes differ by at most one; the shards concatenated in order are the
  corpus, so the sizes sum to \<open>N\<close>; and a corpus of ten examples is cut by the four
  workers of \<open>main\<close> into shards of sizes 3, 3, 2, 2.
\<close>

theorem fragment_balanced:
  assumes "0 < p"
  shows "\<exists>shards. fragment p xs = Inr shards
           \<and> length shards = p
           \<and> (\<forall>i<p. shards ! i = slice xs (shard_start (length xs) p i)
                                          (shard_start (length xs) p (Suc i))
                  \<and> shard_start (length xs) p i \<le> shard_start (length xs) p (Suc i)
                  \<and> shard_start (length xs) p (Suc i) \<le> length xs
                  \<and> length (shards ! i)
                      = (if i < length xs mod p then length xs div p + 1 else length xs div p))
           \<and> (\<forall>i<p. \<forall>j<p. length (shards ! i) \<le> length (shards ! j) + 1)
           \<and> (\<forall>i<p. \<forall>j<p. i \<le> j \<longrightarrow> length (shards ! j) \<le> length (shards ! i))
           \<and> concat shards = xs
           \<and> sum_list (map length shards) = length xs
           \<and> (length xs = 10 \<longrightarrow> (\<exists>s. fragmented_training_data xs = Inr s
                                        \<and> map length s = [3, 3, 2, 2::nat]))"
proof -
  let ?n = "length xs"
  let ?f = "\<lambda>i. slice xs (shard_start ?n p i) (shard_start ?n p (Suc i))"
  let ?shards = "map ?f [0..<p]"
  have frag: "fragment p xs = Inr ?shards"
    using assms by (rule fragment_eq)
  have len: "length ?shards = p" by simp
  have nth: "?shards ! i = ?f i" if "i < p" for i
    using that by simp
  have le: "shard_start ?n p (Suc i) \<le> ?n" if "i < p" for i
    using that shard_start_le [OF assms, of "Suc i" ?n] by simp
  have size: "length (?shards ! i) = (if i < ?n mod p then ?n div p + 1 else ?n div p)"
    if "i < p" for i
    using that le [OF that] nth [OF that] length_slice [OF le [OF that]] shard_size [of ?n p i]
    by simp
  have each: "\<forall>i<p. ?shards ! i = ?f i
                  \<and> shard_start ?n p i \<le> shard_start ?n p (Suc i)
                  \<and> shard_start ?n p (Suc i) \<le> ?n
                  \<and> length (?shards ! i) = (if i < ?n mod p then ?n div p + 1 else ?n div p)"
    using nth le size shard_start_mono by blast
  have diff: "\<forall>i<p. \<forall>j<p. length (?shards ! i) \<le> length (?shards ! j) + 1"
  proof (intro allI impI)
    fix i j assume "i < p" "j < p"
    then show "length (?shards ! i) \<le> length (?shards ! j) + 1"
      using size [of i] size [of j] by (simp split: if_splits)
  qed
  have order: "\<forall>i<p. \<forall>j<p. i \<le> j \<longrightarrow> length (?shards ! j) \<le> length (?shards ! i)"
  proof (intro allI impI)
    fix i j assume "i < p" "j < p" "i \<le> j"
    then show "length (?shards ! j) \<le> length (?shards ! i)"
      using size [of i] size [of j] by (simp split: if_splits)
  qed
  have cat: "concat ?shards = xs"
    using concat_slices [of xs ?n p p] shard_start_last [OF assms, of ?n]
    by (simp add: slice_def)
  have total: "sum_list (map length ?shards) = ?n"
    using cat length_concat [of ?shards] by simp
  have ten: "length xs = 10 \<longrightarrow> (\<exists>s. fragmented_training_data xs = Inr s
                                        \<and> map length s = [3, 3, 2, 2::nat])"
  proof
    assume n: "length xs = 10"
    have up: "[0..<4] = [0, 1, 2, 3]" by (simp add: upt_rec)
    have a: "fragmented_training_data xs
          = Inr [slice xs 0 3, slice xs 3 6, slice xs 6 8, slice xs 8 10]"
      by (simp add: fragmented_training_data_def num_processes_def fragment_def n up)
    have b: "map length [slice xs 0 3, slice xs 3 6, slice xs 6 8, slice xs 8 10]
                   = [3, 3, 2, 2::nat]"
      by (simp add: slice_def n)
    show "\<exists>s. fragmented_training_data xs = Inr s \<and> map length s = [3, 3, 2, 2::nat]"
      unfolding a using b by simp
  qed
  show ?thesis
  proof (intro exI conjI)
    show "fragment p xs = Inr ?shards" by (rule frag)
    show "length ?shards = p" by (rule len)
    show "\<forall>i<p. ?shards ! i = ?f i
                  \<and> shard_start ?n p i \<le> shard_start ?n p (Suc i)
                  \<and> shard_start ?n p (Suc i) \<le> ?n
                  \<and> length (?shards ! i) = (if i < ?n mod p then ?n div p + 1 else ?n div p)"
      by (rule each)
    show "\<forall>i<p. \<forall>j<p. length (?shards ! i) \<le> length (?shards ! j) + 1" by (rule diff)
    show "\<forall>i<p. \<forall>j<p. i \<le> j \<longrightarrow> length (?shards ! j) \<le> length (?shards ! i)"
      by (rule order)
    show "concat ?shards = xs" by (rule cat)
    show "sum_list (map length ?shards) = ?n" by (rule total)
    show "length xs = 10 \<longrightarrow> (\<exists>s. fragmented_training_data xs = Inr s
                                        \<and> map length s = [3, 3, 2, 2::nat])"
      by (rule ten)
  qed
qed

theorem fragment_balanced_witness:
  "fragment 4 [0..<10::nat] = Inr [[0, 1, 2], [3, 4, 5], [6, 7], [8, 9]]
   \<and> fragmented_training_data [0..<10::nat] = Inr [[0, 1, 2], [3, 4, 5], [6, 7], [8, 9]]"
proof -
  have up4: "[0..<4] = [0, 1, 2, 3]" by (simp add: upt_rec)
  have up10: "[0..<10::nat] = [0, 1, 2, 3, 4, 5, 6, 7, 8, 9]" by (simp add: upt_rec)
  have pos: "(0::nat) < 4" by simp
  have e: "fragment 4 [0..<10::nat] = Inr [[0, 1, 2], [3, 4, 5], [6, 7], [8, 9]]"
    by (simp add: fragment_def up4 up10 slice_def)
  from fragment_balanced [OF pos, of "[0..<10::nat]"] e show ?thesis
    by (simp add: fragmented_training_data_def num_processes_def)
qed

end
